theory Spec2Isabelle
  imports Main
begin

section \<open>Strings, exceptions, indexing\<close>

text \<open>
  A Python \<open>str\<close> is a sequence of Unicode code points, so a character is modelled by
  its code point (a natural number) and a string by the list of its code points. The
  abbreviation \<open>S\<close> reads an ASCII literal as such a list.
\<close>

type_synonym codepoint = nat
type_synonym str = "codepoint list"

abbreviation (input) S :: "string \<Rightarrow> str" where
  "S s \<equiv> map of_char s"

text \<open>
  The exceptions that the program can meet. \<open>OtherError\<close> stands for any exception of
  the speech service that is not \<open>openai.RateLimitError\<close>; \<open>ExceptionGroup\<close> is what
  an \<open>asyncio.TaskGroup\<close> raises when one of its tasks has failed.
\<close>

datatype exn =
    RateLimitError
  | IndexError
  | ValueError
  | OtherError nat
  | ExceptionGroup "exn list"

text \<open>Python's \<open>xs[i]\<close>: a negative index counts from the end, out of range raises.\<close>

definition getitem :: "'a list \<Rightarrow> int \<Rightarrow> exn + 'a" where
  "getitem xs i =
     (if 0 \<le> i \<and> i < int (length xs) then Inr (xs ! nat i)
      else if i < 0 \<and> - int (length xs) \<le> i then Inr (xs ! nat (int (length xs) + i))
      else Inl IndexError)"

text \<open>Python's \<open>s[a:b]\<close>: negative bounds count from the end, all bounds are clipped.\<close>

definition clip :: "nat \<Rightarrow> int \<Rightarrow> nat" where
  "clip n i = (if i < 0 then nat (int n + i) else min (nat i) n)"

definition slice :: "'a list \<Rightarrow> int \<Rightarrow> int \<Rightarrow> 'a list" where
  "slice xs a b = take (clip (length xs) b - clip (length xs) a) (drop (clip (length xs) a) xs)"

section \<open>File names\<close>

text \<open>
  \<open>slugify\<close> is \<open>re.sub(r"[^a-zA-Z0-9]", "_", chapter_title)\<close>: every character
  outside the three ASCII ranges becomes an underscore (code point 95).
\<close>

definition ascii_alnum :: "codepoint \<Rightarrow> bool" where
  "ascii_alnum c \<longleftrightarrow> (97 \<le> c \<and> c \<le> 122) \<or> (65 \<le> c \<and> c \<le> 90) \<or> (48 \<le> c \<and> c \<le> 57)"

definition slugify :: "str \<Rightarrow> str" where
  "slugify chapter_title = map (\<lambda>c. if ascii_alnum c then c else 95) chapter_title"

text \<open>
  \<open>str(i)\<close> for a non-negative integer, and the format specification \<open>{i:0>3}\<close>: the
  decimal digits, right-aligned in a field of at least three characters filled with
  \<open>0\<close> (code point 48). The index comes from \<open>enumerate\<close>, so it is never negative.
\<close>

fun decimal :: "nat \<Rightarrow> str" where
  "decimal n = (if n < 10 then [48 + n] else decimal (n div 10) @ [48 + n mod 10])"

declare decimal.simps [simp del]

definition format_index :: "nat \<Rightarrow> str" where
  "format_index i = replicate (3 - length (decimal i)) 48 @ decimal i"

text \<open>
  A \<open>pathlib.Path\<close> is modelled by its parts (the directories, then the file name).
  \<open>path_parent\<close> is \<open>.parent\<close> of a path that has a name, \<open>path_join\<close> is the operator
  \<open>/\<close> with a right operand that holds no separator, \<open>path_name\<close> is \<open>.name\<close>.
\<close>

type_synonym path = "str list"

definition path_parent :: "path \<Rightarrow> path" where
  "path_parent p = butlast p"

definition path_join :: "path \<Rightarrow> str \<Rightarrow> path" where
  "path_join d n = d @ [n]"

definition path_name :: "path \<Rightarrow> str" where
  "path_name p = (if p = [] then [] else last p)"

text \<open>\<open>name.rfind(c)\<close>: the index of the last occurrence, or \<open>-1\<close>.\<close>

fun rfind :: "str \<Rightarrow> codepoint \<Rightarrow> int" where
  "rfind [] c = - 1"
| "rfind (x # xs) c =
     (let r = rfind xs c in if 0 \<le> r then r + 1 else if x = c then 0 else - 1)"

text \<open>
  \<open>PurePath.suffix\<close> and \<open>PurePath.with_suffix\<close> as pathlib defines them: the suffix
  starts at the last dot of the name, unless that dot is the first or the last character;
  \<open>with_suffix\<close> raises \<open>ValueError\<close> on a path without a name.
\<close>

definition path_suffix :: "path \<Rightarrow> str" where
  "path_suffix p =
     (let name = path_name p; i = rfind name 46
      in if 0 < i \<and> i < int (length name) - 1 then drop (nat i) name else [])"

definition with_suffix :: "path \<Rightarrow> str \<Rightarrow> exn + path" where
  "with_suffix p suffix =
     (let name = path_name p in
      if name = [] then Inl ValueError
      else let old_suffix = path_suffix p in
        Inr (butlast p @
          [if old_suffix = [] then name @ suffix
           else take (length name - length old_suffix) name @ suffix]))"

text \<open>
  The name that \<open>_process_chapter\<close> builds for chunk \<open>i\<close> of a chapter:
  \<open>output_dir / f"{slugify(chapter_title)}---{i:0>3}.mp3"\<close>.
\<close>

definition speech_filename_of :: "path \<Rightarrow> str \<Rightarrow> nat \<Rightarrow> path" where
  "speech_filename_of output_dir chapter_title i =
     path_join output_dir (slugify chapter_title @ S ''---'' @ format_index i @ S ''.mp3'')"

section \<open>Segmentation\<close>

text \<open>
  \<open>\s\<close> in a \<open>str\<close> pattern is Unicode white space: the code points for which
  \<open>str.isspace\<close> holds.
\<close>

definition is_space :: "codepoint \<Rightarrow> bool" where
  "is_space c \<longleftrightarrow>
     (9 \<le> c \<and> c \<le> 13) \<or> (28 \<le> c \<and> c \<le> 32) \<or> c = 133 \<or> c = 160 \<or> c = 5760 \<or>
     (8192 \<le> c \<and> c \<le> 8202) \<or> c = 8232 \<or> c = 8233 \<or> c = 8239 \<or> c = 8287 \<or> c = 12288"

text \<open>
  One attempt of the pattern \<open>#\s+(.*)\<close> at the start of \<open>s\<close>: the length of the
  match and group 1. The pattern needs \<open>#\<close> (35) and one white-space character; \<open>\s+\<close>
  then takes the whole run of white space (line breaks included) and \<open>.*\<close> the rest of
  the line, up to the next \<open>\n\<close> (10). Both are greedy and \<open>.*\<close> also matches the empty
  string, so the engine never backtracks.
\<close>

definition heading_match :: "str \<Rightarrow> (nat \<times> str) option" where
  "heading_match s =
     (case s of
        [] \<Rightarrow> None
      | c # r \<Rightarrow>
          if c = 35 \<and> r \<noteq> [] \<and> is_space (hd r)
          then let title = takeWhile (\<lambda>x. x \<noteq> 10) (dropWhile is_space r)
               in Some (1 + length (takeWhile is_space r) + length title, title)
          else None)"

lemma heading_match_pos: "heading_match s = Some (n, t) \<Longrightarrow> 0 < n"
  by (auto simp: heading_match_def Let_def split: list.splits if_splits)

text \<open>
  \<open>re.finditer\<close>: scan from left to right; after a match continue behind it, otherwise
  one character further. \<open>pos\<close> is the offset of \<open>s\<close> in the text. The result is the
  list \<open>chapters\<close> of \<open>_process_book\<close>: \<open>(match.start(), match.group(1))\<close>.
\<close>

function finditer :: "nat \<Rightarrow> str \<Rightarrow> (nat \<times> str) list" where
  "finditer pos s =
     (if s = [] then []
      else case heading_match s of
             Some (n, title) \<Rightarrow> (pos, title) # finditer (pos + n) (drop n s)
           | None \<Rightarrow> finditer (pos + 1) (tl s))"
  by pat_completeness auto
termination
  by (relation "measure (\<lambda>(pos, s). length s)") (auto dest: heading_match_pos)

declare finditer.simps [simp del]

definition chapters_of :: "str \<Rightarrow> (nat \<times> str) list" where
  "chapters_of text = finditer 0 text"

text \<open>
  \<open>fnmatch.fnmatch(name, pat)\<close> on a POSIX system (where \<open>normcase\<close> changes nothing),
  for patterns made of \<open>*\<close> (42), \<open>?\<close> (63) and literal characters, such as the
  pattern \<open>"Chapter *"\<close> of the program.
\<close>

fun fnmatch :: "str \<Rightarrow> str \<Rightarrow> bool" where
  "fnmatch name [] = (name = [])"
| "fnmatch name (p # ps) =
     (if p = 42 then list_ex (\<lambda>k. fnmatch (drop k name) ps) [0..<Suc (length name)]
      else (case name of [] \<Rightarrow> False | c # cs \<Rightarrow> (p = 63 \<or> p = c) \<and> fnmatch cs ps))"

text \<open>
  The selection loop of \<open>_process_book\<close>. The guard \<open>idx < len(chapters)\<close> is the
  source's; \<open>chapters[idx + 1]\<close> raises \<open>IndexError\<close> out of range, which ends the loop
  and the whole function.
\<close>

type_synonym span = "int \<times> int \<times> str"

fun select_loop :: "(nat \<times> str) list \<Rightarrow> (nat \<times> nat \<times> str) list \<Rightarrow> span list \<Rightarrow> exn + span list" where
  "select_loop chapters [] selected_chapters = Inr selected_chapters"
| "select_loop chapters ((idx, chapter) # rest) selected_chapters =
     (if fnmatch (snd chapter) (S ''Chapter *'')
      then (case (if idx < length chapters
                  then map_sum id (\<lambda>c. int (fst c)) (getitem chapters (int idx + 1))
                  else Inr (- 1)) of
              Inl e \<Rightarrow> Inl e
            | Inr end_offset \<Rightarrow>
                select_loop chapters rest
                  (selected_chapters @ [(int (fst chapter), end_offset, snd chapter)]))
      else select_loop chapters rest selected_chapters)"

definition select_chapters :: "(nat \<times> str) list \<Rightarrow> exn + span list" where
  "select_chapters chapters = select_loop chapters (enumerate 0 chapters) []"

text \<open>The chapter texts that \<open>_process_book\<close> hands on: \<open>text[chapter[0] : chapter[1]]\<close>.\<close>

definition chapter_text_of :: "str \<Rightarrow> span \<Rightarrow> str" where
  "chapter_text_of text chapter = slice text (fst chapter) (fst (snd chapter))"

definition segment :: "str \<Rightarrow> exn + (str \<times> str) list" where
  "segment text =
     map_sum id (map (\<lambda>chapter. (chapter_text_of text chapter, snd (snd chapter))))
       (select_chapters (chapters_of text))"

section \<open>Files, console and speech service\<close>

text \<open>
  The state that the program changes: the files (a map from paths to contents) and a log
  of what it did, in the order in which it did it. Writing a file always succeeds in the
  model.
\<close>

datatype content = Text str | Audio "nat list"

datatype message =
    ProcessingChunk str
  | CompletedChunk str
  | RateLimitExceeded str int
  | FailedToConvert str
  | ProcessingChapter str
  | Skipping path
  | CompletedTasks str nat
  | ChapResults nat

text \<open>
  \<open>Echo\<close> is \<open>click.echo\<close> (and the \<open>print\<close> at the end of \<open>_process_book\<close>),
  \<open>WriteText\<close> is \<open>Path.write_text\<close>, \<open>SpeechCreate\<close> is the request
  \<open>client.audio.speech.create\<close> (tagged with the file of the chunk that issues it),
  \<open>StreamToFile\<close> is \<open>response.astream_to_file\<close> and \<open>Sleep\<close> is \<open>asyncio.sleep\<close>.
  A \<open>message\<close> stands for the text of a line of output.
\<close>

datatype event =
    Echo message
  | WriteText path str
  | SpeechCreate path str
  | StreamToFile path "nat list"
  | Sleep int

record world =
  files :: "path \<rightharpoonup> content"
  log :: "event list"

definition echo :: "message \<Rightarrow> world \<Rightarrow> world" where
  "echo m w = w\<lparr>log := log w @ [Echo m]\<rparr>"

definition write_text :: "path \<Rightarrow> str \<Rightarrow> world \<Rightarrow> world" where
  "write_text p data w = w\<lparr>files := (files w)(p \<mapsto> Text data), log := log w @ [WriteText p data]\<rparr>"

definition speech_create :: "path \<Rightarrow> str \<Rightarrow> world \<Rightarrow> world" where
  "speech_create p input w = w\<lparr>log := log w @ [SpeechCreate p input]\<rparr>"

definition stream_to_file :: "path \<Rightarrow> nat list \<Rightarrow> world \<Rightarrow> world" where
  "stream_to_file p data w = w\<lparr>files := (files w)(p \<mapsto> Audio data), log := log w @ [StreamToFile p data]\<rparr>"

definition sleep :: "int \<Rightarrow> world \<Rightarrow> world" where
  "sleep delay w = w\<lparr>log := log w @ [Sleep delay]\<rparr>"

definition exists :: "path \<Rightarrow> world \<Rightarrow> bool" where
  "exists p w \<longleftrightarrow> files w p \<noteq> None"

fun is_request :: "event \<Rightarrow> bool" where
  "is_request (SpeechCreate p input) = True"
| "is_request e = False"

definition requests_made :: "world \<Rightarrow> nat" where
  "requests_made w = length (filter is_request (log w))"

text \<open>
  What the speech service does with one request is not in the program's hands. An
  \<open>outcome\<close> says how the two awaited calls in the \<open>try\<close> block end: \<open>create\<close> raises;
  or \<open>create\<close> returns and \<open>astream_to_file\<close> raises, after writing nothing or some
  data to the file; or both return and the audio is in the file. The service is a
  function from the number of requests made before this one and the input to the outcome.
\<close>

datatype outcome =
    CreateRaises exn
  | StreamRaises "nat list option" exn
  | Completed "nat list"

type_synonym service = "nat \<Rightarrow> str \<Rightarrow> outcome"

section \<open>The converter, \<open>_process_chunk\<close>\<close>

text \<open>
  The \<open>while\<close> loop of \<open>_process_chunk\<close>, with its variables \<open>retries\<close> and
  \<open>success\<close>. \<open>except openai.RateLimitError\<close> covers both awaited calls; any other
  exception leaves the function. The world is returned in both cases, since what was
  written stays written.
\<close>

function retry_loop ::
  "service \<Rightarrow> str \<Rightarrow> path \<Rightarrow> int \<Rightarrow> int \<Rightarrow> int \<Rightarrow> bool \<Rightarrow> world \<Rightarrow> (exn + bool) \<times> world" where
  "retry_loop client chunk speech_filename max_retries retry_delay retries success w =
     (if \<not> success \<and> retries < max_retries then
        (let w1 = speech_create speech_filename chunk w in
         case client (requests_made w) chunk of
           Completed audio \<Rightarrow>
             retry_loop client chunk speech_filename max_retries retry_delay retries True
               (echo (CompletedChunk (path_name speech_filename))
                  (stream_to_file speech_filename audio w1))
         | CreateRaises e \<Rightarrow>
             if e = RateLimitError then
               retry_loop client chunk speech_filename max_retries retry_delay (retries + 1) False
                 (sleep retry_delay
                    (echo (RateLimitExceeded (path_name speech_filename) retry_delay) w1))
             else (Inl e, w1)
         | StreamRaises partial e \<Rightarrow>
             (let w2 = (case partial of None \<Rightarrow> w1
                        | Some data \<Rightarrow> stream_to_file speech_filename data w1) in
              if e = RateLimitError then
                retry_loop client chunk speech_filename max_retries retry_delay (retries + 1) False
                  (sleep retry_delay
                     (echo (RateLimitExceeded (path_name speech_filename) retry_delay) w2))
              else (Inl e, w2)))
      else (Inr success, w))"
  by pat_completeness auto
termination
  by (relation "measure (\<lambda>(client, chunk, speech_filename, max_retries, retry_delay, retries, success, w).
        if success then 0 else 1 + nat (max_retries - retries))") auto

declare retry_loop.simps [simp del]

definition process_chunk ::
  "service \<Rightarrow> str \<Rightarrow> path \<Rightarrow> int \<Rightarrow> int \<Rightarrow> world \<Rightarrow> (exn + unit) \<times> world" where
  "process_chunk client chunk speech_filename max_retries retry_delay w =
     (let w1 = echo (ProcessingChunk (path_name speech_filename)) w in
      case with_suffix speech_filename (S ''.txt'') of
        Inl e \<Rightarrow> (Inl e, w1)
      | Inr txt \<Rightarrow>
          (case retry_loop client chunk speech_filename max_retries retry_delay 0 False
                  (write_text txt chunk w1) of
             (Inl e, w2) \<Rightarrow> (Inl e, w2)
           | (Inr success, w2) \<Rightarrow>
               (Inr (), if \<not> success then echo (FailedToConvert (path_name speech_filename)) w2
                        else w2)))"

section \<open>Task groups, \<open>_process_chapter\<close> and \<open>_process_book\<close>\<close>

text \<open>
  A task is a function on the world that returns or raises. The event loop can switch
  between the tasks of an \<open>asyncio.TaskGroup\<close> at their awaits; the model fixes one
  order and runs the tasks one after the other, in the order of their creation and each
  to its end (a chapter's task with the tasks of its chunks). When a task raises, the group cancels the tasks that have not finished,
  here the ones behind it, and raises an \<open>ExceptionGroup\<close> of the exception.
\<close>

type_synonym 'a task = "world \<Rightarrow> (exn + 'a) \<times> world"

fun task_group :: "'a task list \<Rightarrow> world \<Rightarrow> (exn + 'a list) \<times> world" where
  "task_group [] w = (Inr [], w)"
| "task_group (t # ts) w =
     (case t w of
        (Inl e, w') \<Rightarrow> (Inl (ExceptionGroup [e]), w')
      | (Inr r, w') \<Rightarrow>
          (case task_group ts w' of
             (Inl e, w'') \<Rightarrow> (Inl e, w'')
           | (Inr rs, w'') \<Rightarrow> (Inr (r # rs), w'')))"

text \<open>
  The \<open>for\<close> loop of \<open>_process_chapter\<close> over \<open>enumerate(text_chunker.chunk(...))\<close>. It
  holds no \<open>await\<close>, so it ends before any of the tasks it creates starts. A created
  task is the call \<open>_process_chunk(chunk, speech_filename)\<close>, with the default
  \<open>max_retries=10\<close> and \<open>retry_delay=5\<close>.
\<close>

fun chapter_loop ::
  "service \<Rightarrow> path \<Rightarrow> str \<Rightarrow> (nat \<times> str) list \<Rightarrow> unit task list \<Rightarrow> world \<Rightarrow> unit task list \<times> world" where
  "chapter_loop client output_dir chapter_title [] tasks w = (tasks, w)"
| "chapter_loop client output_dir chapter_title ((i, chunk) # rest) tasks w =
     (let speech_filename = speech_filename_of output_dir chapter_title i in
      if exists speech_filename w
      then chapter_loop client output_dir chapter_title rest tasks (echo (Skipping speech_filename) w)
      else chapter_loop client output_dir chapter_title rest
             (tasks @ [process_chunk client chunk speech_filename 10 5]) w)"

text \<open>
  The chunker, \<open>TextChunker(4096).chunk\<close> of the package chunkipy, is not part of the
  repository: the model takes it as the parameter \<open>text_chunker\<close>.
\<close>

definition process_chapter ::
  "service \<Rightarrow> (str \<Rightarrow> str list) \<Rightarrow> str \<Rightarrow> str \<Rightarrow> path \<Rightarrow> unit task" where
  "process_chapter client text_chunker chapter_text chapter_title output_dir w =
     (case chapter_loop client output_dir chapter_title (enumerate 0 (text_chunker chapter_text)) []
             (echo (ProcessingChapter chapter_title) w) of
        (tasks, w1) \<Rightarrow>
          (case task_group tasks w1 of
             (Inl e, w2) \<Rightarrow> (Inl e, w2)
           | (Inr results, w2) \<Rightarrow> (Inr (), echo (CompletedTasks chapter_title (length tasks)) w2)))"

text \<open>
  \<open>_process_book\<close>, from the text that it has read from \<open>input_path\<close>: the selection
  (which can raise), then one task per selected chapter, then \<open>print(chap_results)\<close>.
\<close>

definition process_book ::
  "service \<Rightarrow> (str \<Rightarrow> str list) \<Rightarrow> path \<Rightarrow> str \<Rightarrow> unit task" where
  "process_book client text_chunker input_path text w =
     (case select_chapters (chapters_of text) of
        Inl e \<Rightarrow> (Inl e, w)
      | Inr selected_chapters \<Rightarrow>
          (case task_group
                  (map (\<lambda>chapter. process_chapter client text_chunker (chapter_text_of text chapter)
                          (snd (snd chapter)) (path_parent input_path))
                     selected_chapters) w of
             (Inl e, w') \<Rightarrow> (Inl e, w')
           | (Inr chap_results, w') \<Rightarrow>
               (Inr (), echo (ChapResults (length chap_results)) w')))"

section \<open>Notions used in the statements\<close>

text \<open>The number that a string of decimal digits stands for.\<close>

definition index_value :: "str \<Rightarrow> nat" where
  "index_value s = foldl (\<lambda>a c. 10 * a + (c - 48)) 0 s"

text \<open>
  The file name of chunk \<open>i\<close> of a chapter with a given extension, and the path of the
  chunk's text file (\<open>with_suffix_speech_filename_txt\<close> below: it is what
  \<open>speech_filename.with_suffix(".txt")\<close> gives).
\<close>

definition chunk_name :: "str \<Rightarrow> nat \<Rightarrow> str \<Rightarrow> str" where
  "chunk_name chapter_title i ext = slugify chapter_title @ S ''---'' @ format_index i @ ext"

definition text_filename_of :: "path \<Rightarrow> str \<Rightarrow> nat \<Rightarrow> path" where
  "text_filename_of output_dir chapter_title i = output_dir @ [chunk_name chapter_title i (S ''.txt'')]"

text \<open>
  A heading is selected when its title matches the pattern; \<open>span_at chapters i\<close> is the
  tuple that the selection loop builds for heading \<open>i\<close> when it is not the last one:
  its start, the start of the next heading of the full list, its title.
\<close>

definition selected :: "nat \<times> str \<Rightarrow> bool" where
  "selected chapter \<longleftrightarrow> fnmatch (snd chapter) (S ''Chapter *'')"

definition span_at :: "(nat \<times> str) list \<Rightarrow> nat \<Rightarrow> span" where
  "span_at chapters i = (int (fst (chapters ! i)), int (fst (chapters ! Suc i)), snd (chapters ! i))"

text \<open>
  The places of a text where the pattern \<open>#\s+(.*)\<close> can match: position \<open>p\<close> holds
  \<open>#\<close> and \<open>p + 1\<close> holds a white-space character. \<open>title_at\<close> is group 1 of the match
  at \<open>p\<close> and \<open>match_end\<close> is the position behind the match.
\<close>

definition marker_at :: "str \<Rightarrow> nat \<Rightarrow> bool" where
  "marker_at text p \<longleftrightarrow> Suc p < length text \<and> text ! p = 35 \<and> is_space (text ! Suc p)"

definition title_at :: "str \<Rightarrow> nat \<Rightarrow> str" where
  "title_at text p = takeWhile (\<lambda>x. x \<noteq> 10) (dropWhile is_space (drop (Suc p) text))"

definition match_end :: "str \<Rightarrow> nat \<Rightarrow> nat" where
  "match_end text p = Suc p + length (takeWhile is_space (drop (Suc p) text)) + length (title_at text p)"

text \<open>
  What an event does to the files, and what a list of events does. \<open>steps Q w w'\<close>
  says that the world \<open>w'\<close> comes from \<open>w\<close> by a list of events that all satisfy \<open>Q\<close>;
  \<open>new_events w w'\<close> is that list; \<open>written e\<close> is the file that event \<open>e\<close> writes.
\<close>

fun apply_event :: "event \<Rightarrow> (path \<rightharpoonup> content) \<Rightarrow> (path \<rightharpoonup> content)" where
  "apply_event (WriteText p data) fs = fs(p \<mapsto> Text data)"
| "apply_event (StreamToFile p data) fs = fs(p \<mapsto> Audio data)"
| "apply_event e fs = fs"

definition replay :: "event list \<Rightarrow> (path \<rightharpoonup> content) \<Rightarrow> (path \<rightharpoonup> content)" where
  "replay evs fs = fold apply_event evs fs"

definition steps :: "(event \<Rightarrow> bool) \<Rightarrow> world \<Rightarrow> world \<Rightarrow> bool" where
  "steps Q w w' \<longleftrightarrow>
     (\<exists>evs. log w' = log w @ evs \<and> list_all Q evs \<and> files w' = replay evs (files w))"

definition new_events :: "world \<Rightarrow> world \<Rightarrow> event list" where
  "new_events w w' = drop (length (log w)) (log w')"

fun written :: "event \<Rightarrow> path option" where
  "written (WriteText p data) = Some p"
| "written (StreamToFile p data) = Some p"
| "written e = None"

text \<open>
  The events that a run may produce, given the chunks it processes: \<open>T q chunk\<close> says
  that the chunk with the audio file \<open>q\<close> and the text \<open>chunk\<close> is processed.
\<close>

fun allowed :: "(path \<Rightarrow> str \<Rightarrow> bool) \<Rightarrow> event \<Rightarrow> bool" where
  "allowed T (Echo m) = True"
| "allowed T (Sleep d) = True"
| "allowed T (SpeechCreate p s) = T p s"
| "allowed T (StreamToFile p d) = (\<exists>s. T p s)"
| "allowed T (WriteText p s) = (\<exists>q. T q s \<and> with_suffix q (S ''.txt'') = Inr p)"

text \<open>The events of the retry loop for the chunk with the audio file \<open>q\<close>.\<close>

fun loop_event :: "path \<Rightarrow> str \<Rightarrow> event \<Rightarrow> bool" where
  "loop_event q chunk (Echo m) = True"
| "loop_event q chunk (Sleep d) = True"
| "loop_event q chunk (SpeechCreate p s) = (p = q \<and> s = chunk)"
| "loop_event q chunk (StreamToFile p d) = (p = q)"
| "loop_event q chunk (WriteText p s) = False"

text \<open>
  The chunks that a chapter, and a run over the chapters \<open>(chapter text, title)\<close>,
  process from a state \<open>fs\<close> of the files: the chunks whose audio file does not exist.
\<close>

definition chapter_targets ::
  "(path \<rightharpoonup> content) \<Rightarrow> path \<Rightarrow> str \<Rightarrow> str list \<Rightarrow> path \<Rightarrow> str \<Rightarrow> bool" where
  "chapter_targets fs d t chunks p s \<longleftrightarrow>
     (\<exists>i<length chunks. fs p = None \<and> p = speech_filename_of d t i \<and> s = chunks ! i)"

definition book_targets ::
  "(path \<rightharpoonup> content) \<Rightarrow> (str \<Rightarrow> str list) \<Rightarrow> path \<Rightarrow> (str \<times> str) list \<Rightarrow> path \<Rightarrow> str \<Rightarrow> bool" where
  "book_targets fs text_chunker d chapters p s \<longleftrightarrow>
     (\<exists>(ct, t)\<in>set chapters. chapter_targets fs d t (text_chunker ct) p s)"

text \<open>The world before anything is done: no file, nothing logged.\<close>

definition w_empty :: world where
  "w_empty = \<lparr>files = Map.empty, log = []\<rparr>"

text \<open>A position is at the start of a line: it is the first of the text, or follows \<open>\n\<close>.\<close>

definition line_start :: "str \<Rightarrow> nat \<Rightarrow> bool" where
  "line_start text p \<longleftrightarrow> p = 0 \<or> text ! (p - 1) = 10"

text \<open>
  A small book with one chapter to select, a service that completes every request (the
  audio is the number of the request), a chunker that makes one chunk of a chapter, and
  the world that a run on them leaves behind.
\<close>

definition demo_text :: str where
  "demo_text = S ''# Chapter 1\<newline>Hello\<newline># End''"

definition demo_client :: service where
  "demo_client n input = Completed [n]"

definition demo_chunker :: "str \<Rightarrow> str list" where
  "demo_chunker chapter_text = [chapter_text]"

definition demo_done :: world where
  "demo_done =
     \<lparr>files = [[S ''books'', S ''Chapter_1---000.txt''] \<mapsto> Text (S ''# Chapter 1\<newline>Hello\<newline>''),
               [S ''books'', S ''Chapter_1---000.mp3''] \<mapsto> Audio [0]],
      log = [Echo (ProcessingChapter (S ''Chapter 1'')),
             Echo (ProcessingChunk (S ''Chapter_1---000.mp3'')),
             WriteText [S ''books'', S ''Chapter_1---000.txt''] (S ''# Chapter 1\<newline>Hello\<newline>''),
             SpeechCreate [S ''books'', S ''Chapter_1---000.mp3''] (S ''# Chapter 1\<newline>Hello\<newline>''),
             StreamToFile [S ''books'', S ''Chapter_1---000.mp3''] [0],
             Echo (CompletedChunk (S ''Chapter_1---000.mp3'')),
             Echo (CompletedTasks (S ''Chapter 1'') 1),
             Echo (ChapResults 1)]\<rparr>"

text \<open>The exception with which an outcome ends, if any.\<close>

fun raised :: "outcome \<Rightarrow> exn option" where
  "raised (CreateRaises e) = Some e"
| "raised (StreamRaises partial e) = Some e"
| "raised (Completed audio) = None"











text \<open>A book with two chapters whose titles differ in one character that is not a letter or digit.\<close>

definition twin_text :: str where
  "twin_text = S ''# Chapter 1.\<newline>A\<newline># Chapter 1!\<newline>B\<newline># End''"

section \<open>Properties\<close>

subsection \<open>File names\<close>

lemma decimal_digits: "c \<in> set (decimal n) \<Longrightarrow> 48 \<le> c \<and> c \<le> 57"
proof (induction n arbitrary: c rule: decimal.induct)
  case (1 n)
  show ?case
  proof (cases "n < 10")
    case True
    with "1.prems" show ?thesis by (subst (asm) decimal.simps) auto
  next
    case False
    with "1.prems" have "c \<in> set (decimal (n div 10)) \<or> c = 48 + n mod 10"
      by (subst (asm) decimal.simps) auto
    then show ?thesis
    proof
      assume "c \<in> set (decimal (n div 10))"
      with "1.IH" False show ?thesis by blast
    next
      assume "c = 48 + n mod 10"
      moreover have "n mod 10 < 10" by simp
      ultimately show ?thesis by linarith
    qed
  qed
qed

lemma index_value_decimal: "index_value (decimal n) = n"
proof (induction n rule: decimal.induct)
  case (1 n)
  show ?case
  proof (cases "n < 10")
    case True
    then show ?thesis by (subst decimal.simps) (simp add: index_value_def)
  next
    case False
    have "index_value (decimal n) = 10 * index_value (decimal (n div 10)) + n mod 10"
      using False by (subst decimal.simps) (simp add: index_value_def)
    with "1.IH" False show ?thesis by simp
  qed
qed

lemma index_value_zeros: "index_value (replicate k 48 @ s) = index_value s"
  by (induction k) (simp_all add: index_value_def)

lemma index_value_format_index: "index_value (format_index i) = i"
  by (simp add: format_index_def index_value_zeros index_value_decimal)

lemma format_index_inj: "format_index i = format_index j \<Longrightarrow> i = j"
  by (metis index_value_format_index)

lemma format_index_digits: "c \<in> set (format_index i) \<Longrightarrow> 48 \<le> c \<and> c \<le> 57"
  by (auto simp: format_index_def dest: decimal_digits)

lemma decimal_nonempty: "decimal n \<noteq> []"
  by (subst decimal.simps) simp

lemma length_format_index: "3 \<le> length (format_index i)"
  by (simp add: format_index_def)

lemma length_decimal_small: "n < 1000 \<Longrightarrow> length (decimal n) \<le> 3"
  by (subst decimal.simps, subst decimal.simps, subst decimal.simps) simp

lemma length_format_index_small: "i < 1000 \<Longrightarrow> length (format_index i) = 3"
  using length_decimal_small [of i] by (simp add: format_index_def)

lemma replicate_two: "replicate 2 x = [x, x]"
  by (simp add: numeral_2_eq_2)

lemma slugify_chars: "c \<in> set (slugify t) \<Longrightarrow> ascii_alnum c \<or> c = 95"
  by (auto simp: slugify_def)

lemma slugify_no_dash: "45 \<notin> set (slugify t)"
  using slugify_chars [of 45 t] by (auto simp: ascii_alnum_def)

lemma slugify_no_dot: "46 \<notin> set (slugify t)"
  using slugify_chars [of 46 t] by (auto simp: ascii_alnum_def)

lemma format_index_no_dot: "46 \<notin> set (format_index i)"
  using format_index_digits [of 46 i] by auto

lemma takeWhile_until: "c \<notin> set a \<Longrightarrow> takeWhile (\<lambda>x. x \<noteq> c) (a @ c # r) = a"
  by (induction a) auto

lemma split_at_dash:
  fixes a b :: str
  assumes "45 \<notin> set a" "45 \<notin> set b" "a @ 45 # r = b @ 45 # r'"
  shows "a = b \<and> r = r'"
proof -
  have "takeWhile (\<lambda>x. x \<noteq> 45) (a @ 45 # r) = a" "takeWhile (\<lambda>x. x \<noteq> 45) (b @ 45 # r') = b"
    using assms(1,2) by (simp_all add: takeWhile_until)
  with assms(3) have "a = b" by metis
  with assms(3) show ?thesis by simp
qed

lemma chunk_name_eq:
  "chunk_name t i ext = chunk_name t' j ext \<longleftrightarrow> slugify t = slugify t' \<and> i = j"
proof
  assume eq: "chunk_name t i ext = chunk_name t' j ext"
  then have "slugify t @ 45 # (S ''--'' @ format_index i @ ext) =
             slugify t' @ 45 # (S ''--'' @ format_index j @ ext)"
    by (simp add: chunk_name_def)
  from split_at_dash [OF slugify_no_dash slugify_no_dash this]
  have s: "slugify t = slugify t'" and "format_index i @ ext = format_index j @ ext" by simp_all
  then have "format_index i = format_index j" by simp
  with s show "slugify t = slugify t' \<and> i = j" by (simp add: format_index_inj)
next
  assume "slugify t = slugify t' \<and> i = j"
  then show "chunk_name t i ext = chunk_name t' j ext" by (simp add: chunk_name_def)
qed

lemma speech_filename_of_name:
  "speech_filename_of d t i = d @ [chunk_name t i (S ''.mp3'')]"
  by (simp add: speech_filename_of_def path_join_def chunk_name_def)

lemma rfind_absent: "c \<notin> set xs \<Longrightarrow> rfind xs c = - 1"
  by (induction xs) (auto simp: Let_def)

lemma rfind_last: "c \<notin> set ys \<Longrightarrow> rfind (xs @ c # ys) c = int (length xs)"
  by (induction xs) (auto simp: Let_def rfind_absent)

lemma with_suffix_mp3:
  assumes "46 \<notin> set stem" "stem \<noteq> []"
  shows "with_suffix (d @ [stem @ S ''.mp3'']) (S ''.txt'') = Inr (d @ [stem @ S ''.txt''])"
proof -
  have r: "rfind (stem @ [46, 109, 112, 51]) 46 = int (length stem)"
    using rfind_last [of 46 "[109, 112, 51]" stem] by simp
  have "path_suffix (d @ [stem @ S ''.mp3'']) = S ''.mp3''"
    using assms(2) by (simp add: path_suffix_def path_name_def Let_def r del: rfind.simps)
  then show ?thesis
    by (simp add: with_suffix_def path_name_def Let_def)
qed

lemma with_suffix_speech_filename_txt:
  "with_suffix (speech_filename_of d t i) (S ''.txt'') = Inr (text_filename_of d t i)"
proof -
  have "46 \<notin> set (slugify t @ S ''---'' @ format_index i)"
    using slugify_no_dot format_index_no_dot by simp
  moreover have "slugify t @ S ''---'' @ format_index i \<noteq> []" by simp
  ultimately show ?thesis
    using with_suffix_mp3 [of "slugify t @ S ''---'' @ format_index i" d]
    by (simp add: speech_filename_of_def path_join_def text_filename_of_def chunk_name_def)
qed

lemma with_suffix_speech_filename:
  "sfx = S ''.txt'' \<Longrightarrow> with_suffix (speech_filename_of d t i) sfx = Inr (text_filename_of d t i)"
  by (simp only: with_suffix_speech_filename_txt)

lemma speech_filename_of_eq:
  "speech_filename_of d t i = speech_filename_of d' t' j \<longleftrightarrow> d = d' \<and> slugify t = slugify t' \<and> i = j"
  by (auto simp: speech_filename_of_name chunk_name_eq)

lemma text_filename_of_eq:
  "text_filename_of d t i = text_filename_of d' t' j \<longleftrightarrow> d = d' \<and> slugify t = slugify t' \<and> i = j"
  by (auto simp: text_filename_of_def chunk_name_eq)

lemma chunk_name_ext: "chunk_name t i (S ''.mp3'') \<noteq> chunk_name t' j (S ''.txt'')"
proof
  assume "chunk_name t i (S ''.mp3'') = chunk_name t' j (S ''.txt'')"
  then have "last (chunk_name t i (S ''.mp3'')) = last (chunk_name t' j (S ''.txt''))" by simp
  then show False by (simp add: chunk_name_def)
qed

lemma speech_text_distinct: "speech_filename_of d t i \<noteq> text_filename_of d' t' j"
  using chunk_name_ext [of t i t' j] by (simp add: speech_filename_of_name text_filename_of_def)

subsection \<open>Selection\<close>

lemma fnmatch_literal_star:
  "(\<forall>p\<in>set lit. p \<noteq> 42 \<and> p \<noteq> 63) \<Longrightarrow>
   fnmatch name (lit @ [42]) \<longleftrightarrow> take (length lit) name = lit"
proof (induction lit arbitrary: name)
  case Nil
  have "fnmatch [] [] " by simp
  then have "\<exists>k<Suc (length name). fnmatch (drop k name) []" by auto
  then show ?case by (simp add: list_ex_iff)
next
  case (Cons p lit)
  then show ?case by (cases name) auto
qed

lemma fnmatch_Chapter: "fnmatch title (S ''Chapter *'') \<longleftrightarrow> take 8 title = S ''Chapter ''"
proof -
  have a: "\<forall>p\<in>set (S ''Chapter ''). p \<noteq> 42 \<and> p \<noteq> 63" by simp
  have b: "S ''Chapter '' @ [42] = S ''Chapter *''" by simp
  have c: "length (S ''Chapter '') = 8" by simp
  from fnmatch_literal_star [OF a, of title] show ?thesis unfolding b c .
qed

lemma select_loop_from:
  "k \<le> length chapters \<Longrightarrow>
   select_loop chapters (enumerate k (drop k chapters)) acc =
     (if k < length chapters \<and> selected (last chapters) then Inl IndexError
      else Inr (acc @ map (span_at chapters) (filter (\<lambda>i. selected (chapters ! i)) [k..<length chapters - 1])))"
proof (induction "length chapters - k" arbitrary: k acc)
  case 0
  then show ?case by simp
next
  case (Suc n)
  then have k: "k < length chapters" by simp
  then have d: "drop k chapters = chapters ! k # drop (Suc k) chapters"
    by (simp add: Cons_nth_drop_Suc)
  have IH: "\<And>acc. select_loop chapters (enumerate (Suc k) (drop (Suc k) chapters)) acc =
     (if Suc k < length chapters \<and> selected (last chapters) then Inl IndexError
      else Inr (acc @ map (span_at chapters) (filter (\<lambda>i. selected (chapters ! i)) [Suc k..<length chapters - 1])))"
    using Suc.hyps(1) [of "Suc k"] Suc.hyps(2) k by simp
  show ?case
  proof (cases "Suc k < length chapters")
    case True
    then have u: "[k..<length chapters - 1] = k # [Suc k..<length chapters - 1]"
      by (simp add: upt_conv_Cons)
    from True have g: "getitem chapters (int k + 1) = Inr (chapters ! Suc k)"
      by (simp add: getitem_def Let_def nat_add_distrib)
    show ?thesis
      using True k d IH u g by (simp add: selected_def span_at_def del: fnmatch.simps)
  next
    case False
    with k have e: "Suc k = length chapters" by simp
    then have l: "last chapters = chapters ! k"
      using k by (metis diff_Suc_1 last_conv_nth length_greater_0_conv less_nat_zero_code list.size(3))
    from e have g: "getitem chapters (int k + 1) = Inl IndexError"
      by (simp add: getitem_def Let_def)
    from e have u: "[k..<length chapters - 1] = []" by simp
    show ?thesis
      using k e d IH u g l by (simp add: selected_def del: fnmatch.simps)
  qed
qed

lemma select_chapters_eq:
  "select_chapters chapters =
     (if chapters \<noteq> [] \<and> selected (last chapters) then Inl IndexError
      else Inr (map (span_at chapters) (filter (\<lambda>i. selected (chapters ! i)) [0..<length chapters - 1])))"
  using select_loop_from [of 0 chapters "[]"] by (simp add: select_chapters_def)

lemma heading_match_drop:
  assumes "p < length text"
  shows "heading_match (drop p text) =
           (if marker_at text p then Some (match_end text p - p, title_at text p) else None)"
proof -
  from assms have d: "drop p text = text ! p # drop (Suc p) text"
    by (simp add: Cons_nth_drop_Suc)
  have h: "Suc p < length text \<Longrightarrow> hd (drop (Suc p) text) = text ! Suc p"
    by (simp add: hd_drop_conv_nth)
  show ?thesis
    using h by (auto simp: heading_match_def d marker_at_def title_at_def match_end_def Let_def)
qed

lemma match_end_gt: "p < match_end text p"
  by (simp add: match_end_def)

lemma finditer_sound:
  "s = drop pos text \<Longrightarrow> (p, t) \<in> set (finditer pos s) \<Longrightarrow>
     pos \<le> p \<and> marker_at text p \<and> t = title_at text p"
proof (induction pos s arbitrary: p t rule: finditer.induct)
  case (1 pos s)
  show ?case
  proof (cases "s = []")
    case True
    with "1.prems" show ?thesis by (simp add: finditer.simps)
  next
    case False
    with "1.prems"(1) have lt: "pos < length text" by simp
    show ?thesis
    proof (cases "marker_at text pos")
      case True
      with lt "1.prems"(1) have hm: "heading_match s = Some (match_end text pos - pos, title_at text pos)"
        by (simp add: heading_match_drop)
      have nx: "drop (match_end text pos - pos) s = drop (pos + (match_end text pos - pos)) text"
        using "1.prems"(1) by (simp add: add.commute)
      from "1.prems"(2) False hm
      have "(p, t) = (pos, title_at text pos) \<or>
            (p, t) \<in> set (finditer (pos + (match_end text pos - pos)) (drop (match_end text pos - pos) s))"
        by (subst (asm) finditer.simps) simp
      then show ?thesis
      proof
        assume "(p, t) = (pos, title_at text pos)"
        with True show ?thesis by simp
      next
        assume "(p, t) \<in> set (finditer (pos + (match_end text pos - pos)) (drop (match_end text pos - pos) s))"
        from "1.IH"(2) [OF False hm refl nx this] show ?thesis by simp
      qed
    next
      case nm: False
      with lt "1.prems"(1) have hm: "heading_match s = None"
        by (simp add: heading_match_drop)
      have nx: "tl s = drop (pos + 1) text"
        using "1.prems"(1) by (simp add: drop_Suc tl_drop)
      from "1.prems"(2) False hm have "(p, t) \<in> set (finditer (pos + 1) (tl s))"
        by (subst (asm) finditer.simps) simp
      from "1.IH"(1) [OF False hm nx this] show ?thesis by simp
    qed
  qed
qed

lemma finditer_ordered:
  "s = drop pos text \<Longrightarrow>
     sorted_wrt (\<lambda>a b. match_end text (fst a) \<le> fst b) (finditer pos s)"
proof (induction pos s rule: finditer.induct)
  case (1 pos s)
  show ?case
  proof (cases "s = []")
    case True
    then show ?thesis by (simp add: finditer.simps)
  next
    case False
    with "1.prems"(1) have lt: "pos < length text" by simp
    show ?thesis
    proof (cases "marker_at text pos")
      case True
      with lt "1.prems"(1) have hm: "heading_match s = Some (match_end text pos - pos, title_at text pos)"
        by (simp add: heading_match_drop)
      have nx: "drop (match_end text pos - pos) s = drop (pos + (match_end text pos - pos)) text"
        using "1.prems"(1) by (simp add: add.commute)
      have me: "pos + (match_end text pos - pos) = match_end text pos"
        using match_end_gt [of pos "text"] by simp
      have later: "\<And>b. b \<in> set (finditer (pos + (match_end text pos - pos)) (drop (match_end text pos - pos) s))
           \<Longrightarrow> match_end text pos \<le> fst b"
        using finditer_sound [OF nx] me by (metis prod.collapse)
      have f: "finditer pos s = (pos, title_at text pos) #
                 finditer (pos + (match_end text pos - pos)) (drop (match_end text pos - pos) s)"
        using False hm by (subst finditer.simps) simp
      show ?thesis
        using "1.IH"(2) [OF False hm refl nx] later by (simp add: f)
    next
      case nm: False
      with lt "1.prems"(1) have hm: "heading_match s = None"
        by (simp add: heading_match_drop)
      have nx: "tl s = drop (pos + 1) text"
        using "1.prems"(1) by (simp add: drop_Suc tl_drop)
      have f: "finditer pos s = finditer (pos + 1) (tl s)"
        using False hm by (subst finditer.simps) simp
      show ?thesis
        using "1.IH"(1) [OF False hm nx] by (simp add: f)
    qed
  qed
qed

lemma finditer_complete:
  "s = drop pos text \<Longrightarrow> marker_at text p \<Longrightarrow> pos \<le> p \<Longrightarrow>
     \<exists>q t. (q, t) \<in> set (finditer pos s) \<and> q \<le> p \<and> p < match_end text q"
proof (induction pos s rule: finditer.induct)
  case (1 pos s)
  from "1.prems" have lt: "pos < length text" by (simp add: marker_at_def)
  with "1.prems"(1) have ne: "s \<noteq> []" by simp
  show ?case
  proof (cases "marker_at text pos")
    case True
    with lt "1.prems"(1) have hm: "heading_match s = Some (match_end text pos - pos, title_at text pos)"
      by (simp add: heading_match_drop)
    have nx: "drop (match_end text pos - pos) s = drop (pos + (match_end text pos - pos)) text"
      using "1.prems"(1) by (simp add: add.commute)
    have me: "pos + (match_end text pos - pos) = match_end text pos"
      using match_end_gt [of pos "text"] by simp
    have f: "finditer pos s = (pos, title_at text pos) #
               finditer (pos + (match_end text pos - pos)) (drop (match_end text pos - pos) s)"
      using ne hm by (subst finditer.simps) simp
    show ?thesis
    proof (cases "p < match_end text pos")
      case True
      with "1.prems"(3) f show ?thesis by auto
    next
      case False
      then have "pos + (match_end text pos - pos) \<le> p" using me by simp
      from "1.IH"(2) [OF ne hm refl nx "1.prems"(2) this] f show ?thesis by auto
    qed
  next
    case False
    with lt "1.prems"(1) have hm: "heading_match s = None"
      by (simp add: heading_match_drop)
    have nx: "tl s = drop (pos + 1) text"
      using "1.prems"(1) by (simp add: drop_Suc tl_drop)
    have f: "finditer pos s = finditer (pos + 1) (tl s)"
      using ne hm by (subst finditer.simps) simp
    from False "1.prems"(2,3) have "pos + 1 \<le> p"
      by (metis Suc_eq_plus1 Suc_leI le_neq_implies_less)
    from "1.IH"(1) [OF ne hm nx "1.prems"(2) this] f show ?thesis by auto
  qed
qed

subsection \<open>Runs as lists of events\<close>

lemma steps_refl: "steps Q w w"
  by (simp add: steps_def replay_def)

lemma steps_trans: "steps Q w w' \<Longrightarrow> steps Q w' w'' \<Longrightarrow> steps Q w w''"
  by (auto simp: steps_def replay_def)

lemma steps_mono: "steps Q w w' \<Longrightarrow> (\<And>e. Q e \<Longrightarrow> Q' e) \<Longrightarrow> steps Q' w w'"
  by (auto simp: steps_def list_all_iff)

lemma steps_new_events: "steps Q w w' \<Longrightarrow> list_all Q (new_events w w')"
  by (auto simp: steps_def new_events_def)

lemma steps_files: "steps Q w w' \<Longrightarrow> files w' = replay (new_events w w') (files w)"
  by (auto simp: steps_def new_events_def)

lemma steps_log: "steps Q w w' \<Longrightarrow> log w' = log w @ new_events w w'"
  by (auto simp: steps_def new_events_def)

lemma replay_exists: "fs p \<noteq> None \<Longrightarrow> replay evs fs p \<noteq> None"
  unfolding replay_def
proof (induction evs arbitrary: fs)
  case Nil
  then show ?case by simp
next
  case (Cons e evs)
  have "apply_event e fs p \<noteq> None" using Cons.prems by (cases e) auto
  then show ?case using Cons.IH by simp
qed

lemma replay_frame: "\<forall>e\<in>set evs. written e \<noteq> Some p \<Longrightarrow> replay evs fs p = fs p"
  unfolding replay_def
proof (induction evs arbitrary: fs)
  case Nil
  then show ?case by simp
next
  case (Cons e evs)
  have "apply_event e fs p = fs p" using Cons.prems by (cases e) auto
  then show ?case using Cons by simp
qed


lemma steps_exists:
  assumes "steps Q w w'" "files w p \<noteq> None"
  shows "files w' p \<noteq> None"
proof -
  from assms(1) obtain evs where "files w' = replay evs (files w)"
    by (auto simp: steps_def)
  with replay_exists [of "files w" p evs] assms(2) show ?thesis by simp
qed

lemma steps_echo: "Q (Echo m) \<Longrightarrow> steps Q w (echo m w)"
  by (simp add: steps_def echo_def replay_def)

lemma steps_sleep: "Q (Sleep d) \<Longrightarrow> steps Q w (sleep d w)"
  by (simp add: steps_def sleep_def replay_def)

lemma steps_speech_create: "Q (SpeechCreate p s) \<Longrightarrow> steps Q w (speech_create p s w)"
  by (simp add: steps_def speech_create_def replay_def)

lemma steps_write_text: "Q (WriteText p s) \<Longrightarrow> steps Q w (write_text p s w)"
  by (simp add: steps_def write_text_def replay_def)

lemma steps_stream_to_file: "Q (StreamToFile p d) \<Longrightarrow> steps Q w (stream_to_file p d w)"
  by (simp add: steps_def stream_to_file_def replay_def)

lemma allowed_mono: "allowed T e \<Longrightarrow> (\<And>p s. T p s \<Longrightarrow> T' p s) \<Longrightarrow> allowed T' e"
  by (cases e) auto

lemma retry_loop_steps:
  "steps (loop_event q chunk) w (snd (retry_loop client chunk q m d r s w))"
proof (induction client chunk q m d r s w rule: retry_loop.induct)
  case (1 client chunk q m d r s w)
  let ?Q = "loop_event q chunk"
  show ?case
  proof (cases "\<not> s \<and> r < m")
    case False
    then show ?thesis by (subst retry_loop.simps) (auto simp: steps_refl)
  next
    case True
    define w1 where "w1 = speech_create q chunk w"
    have s1: "steps ?Q w w1" unfolding w1_def by (rule steps_speech_create) simp
    show ?thesis
    proof (cases "client (requests_made w) chunk")
      case (Completed audio)
      have "steps ?Q w1 (echo (CompletedChunk (path_name q)) (stream_to_file q audio w1))"
        by (rule steps_trans [OF steps_stream_to_file steps_echo]) simp_all
      with s1 have "steps ?Q w (echo (CompletedChunk (path_name q)) (stream_to_file q audio w1))"
        by (rule steps_trans)
      moreover have "steps ?Q (echo (CompletedChunk (path_name q)) (stream_to_file q audio w1))
            (snd (retry_loop client chunk q m d r True
               (echo (CompletedChunk (path_name q)) (stream_to_file q audio w1))))"
        using "1.IH"(3) [OF True w1_def Completed] .
      ultimately show ?thesis
        using True Completed
        by (subst retry_loop.simps) (simp add: w1_def [symmetric] Let_def steps_trans)
    next
      case (CreateRaises e)
      show ?thesis
      proof (cases "e = RateLimitError")
        case False
        with True CreateRaises s1 show ?thesis
          by (subst retry_loop.simps) (simp add: w1_def [symmetric] Let_def)
      next
        case rl: True
        let ?w2 = "sleep d (echo (RateLimitExceeded (path_name q) d) w1)"
        have "steps ?Q w1 ?w2"
          by (rule steps_trans [OF steps_echo steps_sleep]) simp_all
        with s1 have "steps ?Q w ?w2" by (rule steps_trans)
        moreover have "steps ?Q ?w2 (snd (retry_loop client chunk q m d (r + 1) False ?w2))"
          using "1.IH"(1) [OF True w1_def CreateRaises rl] .
        ultimately show ?thesis
          using True CreateRaises rl
          by (subst retry_loop.simps) (simp add: w1_def [symmetric] Let_def steps_trans)
      qed
    next
      case (StreamRaises partial e)
      define w2 where "w2 = (case partial of None \<Rightarrow> w1 | Some data \<Rightarrow> stream_to_file q data w1)"
      have "steps ?Q w1 w2"
        unfolding w2_def by (cases partial) (simp_all add: steps_refl steps_stream_to_file)
      with s1 have s2: "steps ?Q w w2" by (rule steps_trans)
      show ?thesis
      proof (cases "e = RateLimitError")
        case False
        with True StreamRaises s2 show ?thesis
          by (subst retry_loop.simps) (simp add: w1_def [symmetric] w2_def [symmetric] Let_def)
      next
        case rl: True
        let ?w3 = "sleep d (echo (RateLimitExceeded (path_name q) d) w2)"
        have "steps ?Q w2 ?w3"
          by (rule steps_trans [OF steps_echo steps_sleep]) simp_all
        with s2 have "steps ?Q w ?w3" by (rule steps_trans)
        moreover have "steps ?Q ?w3 (snd (retry_loop client chunk q m d (r + 1) False ?w3))"
          using "1.IH"(2) [OF True w1_def StreamRaises w2_def rl] .
        ultimately show ?thesis
          using True StreamRaises rl
          by (subst retry_loop.simps)
             (simp add: w1_def [symmetric] w2_def [symmetric] Let_def steps_trans)
      qed
    qed
  qed
qed

lemma loop_event_allowed: "loop_event q chunk e \<Longrightarrow> allowed (\<lambda>p s. p = q \<and> s = chunk) e"
  by (cases e) auto

lemma process_chunk_steps:
  "steps (allowed (\<lambda>p s. p = q \<and> s = chunk)) w (snd (process_chunk client chunk q m d w))"
proof -
  let ?Q = "allowed (\<lambda>p s. p = q \<and> s = chunk)"
  let ?w1 = "echo (ProcessingChunk (path_name q)) w"
  have s1: "steps ?Q w ?w1" by (rule steps_echo) simp
  show ?thesis
  proof (cases "with_suffix q (S ''.txt'')")
    case (Inl e)
    with s1 show ?thesis by (simp add: process_chunk_def)
  next
    case (Inr tf)
    let ?w2 = "write_text tf chunk ?w1"
    let ?r = "retry_loop client chunk q m d 0 False ?w2"
    have "steps ?Q ?w1 ?w2" using Inr by (intro steps_write_text) simp
    with s1 have s2: "steps ?Q w ?w2" by (rule steps_trans)
    have "steps ?Q ?w2 (snd ?r)"
      by (rule steps_mono [OF retry_loop_steps loop_event_allowed])
    with s2 have s3: "steps ?Q w (snd ?r)" by (rule steps_trans)
    have s4: "steps ?Q (snd ?r) (echo (FailedToConvert (path_name q)) (snd ?r))"
      by (rule steps_echo) simp
    show ?thesis
      using Inr s3 steps_trans [OF s3 s4]
      by (cases ?r) (auto simp: process_chunk_def split: sum.splits)
  qed
qed

lemma task_group_steps:
  assumes "\<And>t w'. t \<in> set ts \<Longrightarrow> steps Q w0 w' \<Longrightarrow> steps Q w' (snd (t w'))"
    and "steps Q w0 w"
  shows "steps Q w (snd (task_group ts w))"
  using assms
proof (induction ts arbitrary: w)
  case Nil
  then show ?case by (simp add: steps_refl)
next
  case (Cons t ts)
  have st: "steps Q w (snd (t w))" using Cons.prems by simp
  then have r: "steps Q w0 (snd (t w))" using Cons.prems(2) steps_trans by blast
  have "steps Q (snd (t w)) (snd (task_group ts (snd (t w))))"
    using Cons.IH [OF _ r] Cons.prems(1) by simp
  with st have "steps Q w (snd (task_group ts (snd (t w))))" by (rule steps_trans)
  with st show ?case
    by (cases "t w") (auto split: sum.splits prod.splits)
qed

lemma chapter_loop_tasks:
  "chapter_loop client d t ics tasks w = (tasks', w') \<Longrightarrow>
     steps (allowed T) w w' \<and> files w' = files w \<and>
     (\<forall>task\<in>set tasks'. task \<in> set tasks \<or>
        (\<exists>(i, chunk)\<in>set ics. files w (speech_filename_of d t i) = None \<and>
           task = process_chunk client chunk (speech_filename_of d t i) 10 5))"
proof (induction ics arbitrary: tasks w)
  case Nil
  then show ?case by (simp add: steps_refl)
next
  case (Cons ic ics)
  obtain i chunk where ic: "ic = (i, chunk)" by (cases ic)
  let ?q = "speech_filename_of d t i"
  show ?case
  proof (cases "exists ?q w")
    case True
    let ?w1 = "echo (Skipping ?q) w"
    from Cons.prems True ic have "chapter_loop client d t ics tasks ?w1 = (tasks', w')"
      by (simp add: Let_def)
    from Cons.IH [OF this] have "steps (allowed T) ?w1 w'" "files w' = files ?w1"
      and ts: "\<forall>task\<in>set tasks'. task \<in> set tasks \<or>
        (\<exists>(i, chunk)\<in>set ics. files ?w1 (speech_filename_of d t i) = None \<and>
           task = process_chunk client chunk (speech_filename_of d t i) 10 5)"
      by simp_all
    moreover have "steps (allowed T) w ?w1" by (rule steps_echo) simp
    moreover have f: "files ?w1 = files w" by (simp add: echo_def)
    ultimately have "steps (allowed T) w w'" "files w' = files w"
      using steps_trans by auto
    moreover from ts f have "\<forall>task\<in>set tasks'. task \<in> set tasks \<or>
        (\<exists>(i, chunk)\<in>set (ic # ics). files w (speech_filename_of d t i) = None \<and>
           task = process_chunk client chunk (speech_filename_of d t i) 10 5)"
      by fastforce
    ultimately show ?thesis by simp
  next
    case False
    from Cons.prems False ic
    have "chapter_loop client d t ics (tasks @ [process_chunk client chunk ?q 10 5]) w = (tasks', w')"
      by (simp add: Let_def)
    from Cons.IH [OF this] have "steps (allowed T) w w'" "files w' = files w"
      and ts: "\<forall>task\<in>set tasks'. task \<in> set (tasks @ [process_chunk client chunk ?q 10 5]) \<or>
        (\<exists>(i, chunk)\<in>set ics. files w (speech_filename_of d t i) = None \<and>
           task = process_chunk client chunk (speech_filename_of d t i) 10 5)"
      by simp_all
    moreover from False have "files w ?q = None" by (simp add: exists_def)
    ultimately show ?thesis using ic by fastforce
  qed
qed

lemma process_chapter_steps:
  "steps (allowed (chapter_targets (files w) d t (text_chunker ct))) w
     (snd (process_chapter client text_chunker ct t d w))"
proof -
  let ?T = "chapter_targets (files w) d t (text_chunker ct)"
  let ?w0 = "echo (ProcessingChapter t) w"
  obtain tasks w1 where
    cl: "chapter_loop client d t (enumerate 0 (text_chunker ct)) [] ?w0 = (tasks, w1)"
    by (cases "chapter_loop client d t (enumerate 0 (text_chunker ct)) [] ?w0")
  have s0: "steps (allowed ?T) w ?w0" by (rule steps_echo) simp
  have f0: "files ?w0 = files w" by (simp add: echo_def)
  from chapter_loop_tasks [OF cl, of ?T]
  have s1: "steps (allowed ?T) ?w0 w1"
    and ts: "\<forall>task\<in>set tasks. \<exists>(i, chunk)\<in>set (enumerate 0 (text_chunker ct)).
        files ?w0 (speech_filename_of d t i) = None \<and>
        task = process_chunk client chunk (speech_filename_of d t i) 10 5"
    by simp_all
  have each: "steps (allowed ?T) w' (snd (task w'))" if "task \<in> set tasks" for task w'
  proof -
    from ts that obtain i chunk where
      ic: "(i, chunk) \<in> set (enumerate 0 (text_chunker ct))"
      and n: "files ?w0 (speech_filename_of d t i) = None"
      and tk: "task = process_chunk client chunk (speech_filename_of d t i) 10 5"
      by blast
    from ic have "i < length (text_chunker ct)" "chunk = text_chunker ct ! i"
      by (auto simp: in_set_enumerate_eq)
    with n f0 have "?T (speech_filename_of d t i) chunk"
      by (auto simp: chapter_targets_def)
    then have "allowed ?T e" if "allowed (\<lambda>p s. p = speech_filename_of d t i \<and> s = chunk) e" for e
      by (rule_tac allowed_mono [OF that]) simp
    with process_chunk_steps [of "speech_filename_of d t i" chunk w' client 10 5] tk
    show ?thesis by (auto intro: steps_mono)
  qed
  have s01: "steps (allowed ?T) w w1" using s0 s1 by (rule steps_trans)
  have s2: "steps (allowed ?T) w1 (snd (task_group tasks w1))"
    by (rule task_group_steps [where ?w0.0 = w1]) (simp_all add: each steps_refl)
  with s01 have s3: "steps (allowed ?T) w (snd (task_group tasks w1))" by (rule steps_trans)
  have s4: "steps (allowed ?T) (snd (task_group tasks w1))
              (echo (CompletedTasks t (length tasks)) (snd (task_group tasks w1)))"
    by (rule steps_echo) simp
  show ?thesis
    using cl s3 steps_trans [OF s3 s4]
    by (cases "task_group tasks w1") (auto simp: process_chapter_def split: sum.splits)
qed

lemma chapter_targets_earlier:
  assumes "steps Q w0 w" "chapter_targets (files w) d t chunks p s"
  shows "chapter_targets (files w0) d t chunks p s"
proof -
  from assms(2) obtain i where i: "i < length chunks" "files w p = None"
    "p = speech_filename_of d t i" "s = chunks ! i"
    by (auto simp: chapter_targets_def)
  from steps_exists [OF assms(1), of p] i(2) have "files w0 p = None"
    by (cases "files w0 p") auto
  with i show ?thesis by (auto simp: chapter_targets_def)
qed

lemma segment_Inl: "segment text = Inl e \<Longrightarrow> process_book client text_chunker input_path text w = (Inl e, w)"
  by (cases "select_chapters (chapters_of text)") (simp_all add: segment_def process_book_def)

lemma process_book_steps:
  assumes "segment text = Inr chapters"
  shows "steps (allowed (book_targets (files w) text_chunker (path_parent input_path) chapters)) w
           (snd (process_book client text_chunker input_path text w))"
proof -
  let ?d = "path_parent input_path"
  let ?T = "book_targets (files w) text_chunker ?d chapters"
  from assms obtain sel where sel: "select_chapters (chapters_of text) = Inr sel"
    and ch: "chapters = map (\<lambda>chapter. (chapter_text_of text chapter, snd (snd chapter))) sel"
    by (cases "select_chapters (chapters_of text)") (auto simp: segment_def)
  let ?tasks = "map (\<lambda>chapter. process_chapter client text_chunker (chapter_text_of text chapter)
                       (snd (snd chapter)) ?d) sel"
  have each: "steps (allowed ?T) w' (snd (task w'))"
    if "task \<in> set ?tasks" "steps (allowed ?T) w w'" for task w'
  proof -
    from that(1) obtain sp where c: "sp \<in> set sel"
      and tk: "task = process_chapter client text_chunker (chapter_text_of text sp) (snd (snd sp)) ?d"
      by auto
    let ?ct = "chapter_text_of text sp" and ?t = "snd (snd sp)"
    from c ch have m: "(?ct, ?t) \<in> set chapters" by auto
    have "allowed ?T e" if "allowed (chapter_targets (files w') ?d ?t (text_chunker ?ct)) e" for e
    proof (rule allowed_mono [OF that])
      fix p s assume "chapter_targets (files w') ?d ?t (text_chunker ?ct) p s"
      from chapter_targets_earlier [OF \<open>steps (allowed ?T) w w'\<close> this] m
      show "?T p s" by (auto simp: book_targets_def)
    qed
    with process_chapter_steps [of w' ?d ?t text_chunker ?ct client] tk
    show ?thesis by (auto intro: steps_mono)
  qed
  have g: "steps (allowed ?T) w (snd (task_group ?tasks w))"
    by (rule task_group_steps [where ?w0.0 = w]) (simp_all add: each steps_refl del: set_map)
  have "steps (allowed ?T) (snd (task_group ?tasks w)) (echo m (snd (task_group ?tasks w)))" for m
    by (rule steps_echo) simp
  with g have "steps (allowed ?T) w (echo m (snd (task_group ?tasks w)))" for m
    by (rule steps_trans)
  with g show ?thesis
    using sel by (cases "task_group ?tasks w") (auto simp: process_book_def split: sum.splits)
qed

lemma process_book_raises:
  assumes "chapters_of text \<noteq> []" "fnmatch (snd (last (chapters_of text))) (S ''Chapter *'')"
  shows "process_book client text_chunker input_path text w = (Inl IndexError, w)"
proof -
  from assms have "select_chapters (chapters_of text) = Inl IndexError"
    by (simp add: select_chapters_eq selected_def del: fnmatch.simps)
  then show ?thesis by (simp add: process_book_def)
qed

subsection \<open>Claim C1: the span of the last heading\<close>

text \<open>
  C1 says that the last heading's chapter extends to the end of the text and that
  computing its span raises no error. The code does otherwise: the guard
  \<open>idx < len(chapters)\<close> holds for every index of the loop, so for the last heading
  \<open>chapters[idx + 1]\<close> is out of range. Whenever the last heading of a text is selected,
  the segmentation raises \<open>IndexError\<close>, and \<open>_process_book\<close> ends there, with nothing
  written and nothing requested.
\<close>

theorem last_heading_selected_raises:
  "chapters_of text \<noteq> [] \<Longrightarrow> fnmatch (snd (last (chapters_of text))) (S ''Chapter *'') \<Longrightarrow>
   segment text = Inl IndexError \<and>
   process_book client text_chunker input_path text w = (Inl IndexError, w)"
  by (simp add: process_book_raises segment_def select_chapters_eq selected_def del: fnmatch.simps)

lemma chapters_of_single: "chapters_of (S ''# Chapter 1\<newline>Hello'') = [(0, S ''Chapter 1'')]"
  by (simp add: chapters_of_def finditer.simps heading_match_def is_space_def)

theorem last_heading_selected_raises_witness:
  "segment (S ''# Chapter 1\<newline>Hello'') = Inl IndexError \<and>
   process_book (\<lambda>n s. Completed []) (\<lambda>t. [t]) [S ''book.txt''] (S ''# Chapter 1\<newline>Hello'') w_empty
     = (Inl IndexError, w_empty)"
proof -
  have a: "chapters_of (S ''# Chapter 1\<newline>Hello'') \<noteq> []"
    by (simp only: chapters_of_single) simp
  have b: "fnmatch (snd (last (chapters_of (S ''# Chapter 1\<newline>Hello'')))) (S ''Chapter *'')"
    by (simp only: chapters_of_single) simp
  show ?thesis by (rule last_heading_selected_raises [OF a b])
qed

subsection \<open>Claim C2: the spans partition the text from the first heading on\<close>

lemma selected_span_ends_at_next_heading:
  assumes "select_chapters chapters = Inr spans" "(a, b, title) \<in> set spans"
  shows "\<exists>i. Suc i < length chapters \<and> fnmatch title (S ''Chapter *'') \<and>
             a = int (fst (chapters ! i)) \<and> title = snd (chapters ! i) \<and>
             b = int (fst (chapters ! Suc i))"
proof -
  from assms(1) have "spans = map (span_at chapters)
      (filter (\<lambda>i. selected (chapters ! i)) [0..<length chapters - 1])"
    by (simp add: select_chapters_eq split: if_splits)
  with assms(2) obtain i where "i < length chapters - 1" "selected (chapters ! i)"
    "(a, b, title) = span_at chapters i" by auto
  then show ?thesis
    by (intro exI [of _ i]) (simp add: span_at_def selected_def del: fnmatch.simps)
qed

text \<open>
  C2 says that the chapter spans reach to the end of the text. On the example text of the
  specification, with a preface and two chapters, the code computes no span at all: the
  second chapter is the last heading, and the selection raises \<open>IndexError\<close>. (When the
  selection does not raise, each selected span ends at the next entry of the full
  heading list, as the lemma above says.)
\<close>

theorem spec_example_raises:
  "segment (S ''Preface\<newline># Chapter 1\<newline>Hello world.\<newline># Chapter 2\<newline>Bye.\<newline>'') = Inl IndexError \<and>
   process_book client text_chunker input_path
     (S ''Preface\<newline># Chapter 1\<newline>Hello world.\<newline># Chapter 2\<newline>Bye.\<newline>'') w = (Inl IndexError, w)"
proof -
  have c: "chapters_of (S ''Preface\<newline># Chapter 1\<newline>Hello world.\<newline># Chapter 2\<newline>Bye.\<newline>'')
             = [(8, S ''Chapter 1''), (33, S ''Chapter 2'')]"
    by (simp add: chapters_of_def finditer.simps heading_match_def is_space_def)
  have s: "select_chapters [(8, S ''Chapter 1''), (33, S ''Chapter 2'')] = Inl IndexError"
    by (simp add: select_chapters_def enumerate_eq_zip getitem_def)
  show ?thesis by (simp only: segment_def process_book_def c s) simp
qed

subsection \<open>Claim C3: which places are headings\<close>

text \<open>
  C3 as stated fails: the pattern is not anchored to the start of a line. A marker in the
  middle of a line gives a heading, and so does the second marker of a doubled one.
\<close>

theorem marker_anywhere_counterexample:
  "chapters_of (S ''a # b'') = [(2, S ''b'')] \<and> \<not> line_start (S ''a # b'') 2 \<and>
   chapters_of (S ''## T'') = [(1, S ''T'')] \<and> \<not> line_start (S ''## T'') 1"
  by (simp add: chapters_of_def finditer.simps heading_match_def is_space_def line_start_def)

text \<open>
  C3, amended. The headings are the matches of \<open>#\s+(.*)\<close> found from left to right:
  each recorded heading starts at a \<open>#\<close> that is followed by white space, wherever in
  the line it stands, and its title is the rest of that line behind the white space; the
  headings are in document order and their matches do not overlap; and every \<open>#\<close>
  followed by white space starts a heading or lies inside the match of one (in the title
  of an earlier marker of the same line).
\<close>

theorem headings_are_marker_matches:
  "(\<forall>(p, t)\<in>set (chapters_of text). marker_at text p \<and> t = title_at text p) \<and>
   sorted_wrt (\<lambda>a b. match_end text (fst a) \<le> fst b) (chapters_of text) \<and>
   (\<forall>p. marker_at text p \<longrightarrow> (\<exists>(q, t)\<in>set (chapters_of text). q \<le> p \<and> p < match_end text q))"
proof (intro conjI allI impI)
  show "\<forall>(p, t)\<in>set (chapters_of text). marker_at text p \<and> t = title_at text p"
    using finditer_sound [of "text" 0 "text"] by (auto simp: chapters_of_def)
  show "sorted_wrt (\<lambda>a b. match_end text (fst a) \<le> fst b) (chapters_of text)"
    using finditer_ordered [of "text" 0 "text"] by (simp add: chapters_of_def)
  fix p assume "marker_at text p"
  with finditer_complete [of "text" 0 "text" p]
  show "\<exists>(q, t)\<in>set (chapters_of text). q \<le> p \<and> p < match_end text q"
    by (auto simp: chapters_of_def)
qed

theorem headings_are_marker_matches_witness:
  "(2, S ''b'') \<in> set (chapters_of (S ''a # b'')) \<and>
   marker_at (S ''a # b'') 2 \<and> title_at (S ''a # b'') 2 = S ''b'' \<and>
   (\<exists>(q, t)\<in>set (chapters_of (S ''a # b'')). q \<le> 2 \<and> 2 < match_end (S ''a # b'') q)"
proof -
  have c: "chapters_of (S ''a # b'') = [(2, S ''b'')]"
    by (simp add: chapters_of_def finditer.simps heading_match_def is_space_def)
  then have m: "(2, S ''b'') \<in> set (chapters_of (S ''a # b''))" by simp
  from headings_are_marker_matches [of "S ''a # b''"] m
  have "marker_at (S ''a # b'') 2 \<and> S ''b'' = title_at (S ''a # b'') 2" by blast
  moreover from this headings_are_marker_matches [of "S ''a # b''"]
  have "\<exists>(q, t)\<in>set (chapters_of (S ''a # b'')). q \<le> 2 \<and> 2 < match_end (S ''a # b'') q" by blast
  ultimately show ?thesis using m by simp
qed

subsection \<open>Claim C4: a chunk that is always rate-limited\<close>

lemma retry_loop_rate_limited:
  assumes "\<forall>n. client n chunk = CreateRaises RateLimitError"
  shows "retry_loop client chunk q m d r False w =
           (Inr False, w\<lparr>log := log w @ concat (replicate (nat (m - r))
              [SpeechCreate q chunk, Echo (RateLimitExceeded (path_name q) d), Sleep d])\<rparr>)"
proof (induction "nat (m - r)" arbitrary: r w)
  case 0
  then have "\<not> r < m" by simp
  with 0 show ?case by (subst retry_loop.simps) simp
next
  case (Suc k)
  then have lt: "r < m" and k: "k = nat (m - (r + 1))" by linarith+
  let ?w2 = "sleep d (echo (RateLimitExceeded (path_name q) d) (speech_create q chunk w))"
  have "retry_loop client chunk q m d r False w = retry_loop client chunk q m d (r + 1) False ?w2"
    using lt assms by (subst retry_loop.simps) (simp add: Let_def)
  also have "\<dots> = (Inr False, ?w2\<lparr>log := log ?w2 @ concat (replicate k
              [SpeechCreate q chunk, Echo (RateLimitExceeded (path_name q) d), Sleep d])\<rparr>)"
    using Suc.hyps(1) [OF k] k by simp
  also have "?w2\<lparr>log := log ?w2 @ concat (replicate k
              [SpeechCreate q chunk, Echo (RateLimitExceeded (path_name q) d), Sleep d])\<rparr>
           = w\<lparr>log := log w @ concat (replicate (Suc k)
              [SpeechCreate q chunk, Echo (RateLimitExceeded (path_name q) d), Sleep d])\<rparr>"
    by (simp add: sleep_def echo_def speech_create_def)
  finally show ?case using Suc.hyps(2) by simp
qed

lemma path_name_speech_filename: "path_name (speech_filename_of d t i) = chunk_name t i (S ''.mp3'')"
  by (simp add: speech_filename_of_name path_name_def)

lemma count_requests_rounds:
  "length (filter is_request (concat (replicate k [SpeechCreate q chunk, Echo m, Sleep d]))) = k"
  by (induction k) simp_all

text \<open>
  C4. When every request for the chunk is answered by a rate-limit error,
  \<open>_process_chunk\<close> writes the text file, then issues exactly \<open>max_retries\<close> requests
  (none when \<open>max_retries\<close> is not positive), each followed by the message and by a sleep
  of \<open>retry_delay\<close> seconds, reports the failure and returns without raising. Nothing is
  streamed to the audio file, which is as it was. With the default arguments, which are
  the ones that \<open>_process_chapter\<close> uses, that makes 10 requests and sleeps of 5 seconds.
  A task group goes on with the tasks behind such a chunk.
\<close>

theorem rate_limited_chunk_is_abandoned:
  assumes "\<forall>n. client n chunk = CreateRaises RateLimitError"
  shows
    "process_chunk client chunk (speech_filename_of d t i) max_retries retry_delay w =
       (Inr (),
        w\<lparr>files := (files w)(text_filename_of d t i \<mapsto> Text chunk),
          log := log w @
            [Echo (ProcessingChunk (chunk_name t i (S ''.mp3''))),
             WriteText (text_filename_of d t i) chunk] @
            concat (replicate (nat max_retries)
              [SpeechCreate (speech_filename_of d t i) chunk,
               Echo (RateLimitExceeded (chunk_name t i (S ''.mp3'')) retry_delay),
               Sleep retry_delay]) @
            [Echo (FailedToConvert (chunk_name t i (S ''.mp3'')))]\<rparr>) \<and>
     requests_made (snd (process_chunk client chunk (speech_filename_of d t i) max_retries retry_delay w))
       = requests_made w + nat max_retries \<and>
     requests_made (snd (process_chunk client chunk (speech_filename_of d t i) 10 5 w))
       = requests_made w + 10 \<and>
     files (snd (process_chunk client chunk (speech_filename_of d t i) max_retries retry_delay w))
       (speech_filename_of d t i) = files w (speech_filename_of d t i) \<and>
     task_group (process_chunk client chunk (speech_filename_of d t i) max_retries retry_delay # tasks) w =
       (case task_group tasks
               (snd (process_chunk client chunk (speech_filename_of d t i) max_retries retry_delay w)) of
          (Inl e, w') \<Rightarrow> (Inl e, w')
        | (Inr rs, w') \<Rightarrow> (Inr (() # rs), w'))"
proof -
  let ?q = "speech_filename_of d t i" and ?tf = "text_filename_of d t i"
  let ?name = "chunk_name t i (S ''.mp3'')"
  have eq: "process_chunk client chunk ?q m dl w =
       (Inr (),
        w\<lparr>files := (files w)(?tf \<mapsto> Text chunk),
          log := log w @ [Echo (ProcessingChunk ?name), WriteText ?tf chunk] @
            concat (replicate (nat m) [SpeechCreate ?q chunk, Echo (RateLimitExceeded ?name dl), Sleep dl]) @
            [Echo (FailedToConvert ?name)]\<rparr>)" for m dl
    by (simp add: process_chunk_def with_suffix_speech_filename Let_def
          retry_loop_rate_limited [where client = client and chunk = chunk, OF assms]
          path_name_speech_filename echo_def write_text_def)
  have rq: "requests_made (snd (process_chunk client chunk ?q m dl w)) = requests_made w + nat m" for m dl
    by (simp add: eq requests_made_def count_requests_rounds)
  have fl: "files (snd (process_chunk client chunk ?q max_retries retry_delay w)) ?q = files w ?q"
    using speech_text_distinct [of d t i d t i] by (simp add: eq)
  have tg: "task_group (process_chunk client chunk ?q max_retries retry_delay # tasks) w =
       (case task_group tasks (snd (process_chunk client chunk ?q max_retries retry_delay w)) of
          (Inl e, w') \<Rightarrow> (Inl e, w')
        | (Inr rs, w') \<Rightarrow> (Inr (() # rs), w'))"
    by (simp add: eq)
  show ?thesis using eq [of max_retries retry_delay] rq [of max_retries retry_delay] rq [of 10 5] fl tg
    by simp
qed

theorem rate_limited_chunk_is_abandoned_witness:
  "process_chunk (\<lambda>n s. CreateRaises RateLimitError) (S ''Hello'') (speech_filename_of [S ''books''] (S ''Chapter 1'') 0) 2 5 w_empty =
     (Inr (),
      \<lparr>files = [[S ''books'', S ''Chapter_1---000.txt''] \<mapsto> Text (S ''Hello'')],
       log = [Echo (ProcessingChunk (S ''Chapter_1---000.mp3'')),
              WriteText [S ''books'', S ''Chapter_1---000.txt''] (S ''Hello''),
              SpeechCreate [S ''books'', S ''Chapter_1---000.mp3''] (S ''Hello''),
              Echo (RateLimitExceeded (S ''Chapter_1---000.mp3'') 5), Sleep 5,
              SpeechCreate [S ''books'', S ''Chapter_1---000.mp3''] (S ''Hello''),
              Echo (RateLimitExceeded (S ''Chapter_1---000.mp3'') 5), Sleep 5,
              Echo (FailedToConvert (S ''Chapter_1---000.mp3''))]\<rparr>)"
proof -
  have r: "replicate 2 x = [x, x]" for x :: 'a
    by (simp add: numeral_2_eq_2)
  show ?thesis
    using rate_limited_chunk_is_abandoned [where client = "\<lambda>n s. CreateRaises RateLimitError"
        and chunk = "S ''Hello''" and d = "[S ''books'']" and t = "S ''Chapter 1''" and i = 0
        and max_retries = 2 and retry_delay = 5 and w = w_empty and tasks = "[]"]
    by (simp add: r w_empty_def speech_filename_of_def path_join_def text_filename_of_def chunk_name_def
          slugify_def ascii_alnum_def format_index_def decimal.simps)
qed

subsection \<open>Claim C7: the companion text file\<close>

lemma loop_event_written: "loop_event q chunk e \<Longrightarrow> written e = None \<or> written e = Some q"
  by (cases e) auto

lemma process_chunk_events:
  "\<exists>evs. list_all (loop_event (speech_filename_of d t i) chunk) evs \<and>
     log (snd (process_chunk client chunk (speech_filename_of d t i) m dl w)) =
       log w @ Echo (ProcessingChunk (path_name (speech_filename_of d t i))) #
               WriteText (text_filename_of d t i) chunk # evs \<and>
     files (snd (process_chunk client chunk (speech_filename_of d t i) m dl w)) =
       replay evs ((files w)(text_filename_of d t i \<mapsto> Text chunk))"
proof -
  let ?q = "speech_filename_of d t i" and ?tf = "text_filename_of d t i"
  let ?name = "path_name (speech_filename_of d t i)"
  let ?w2 = "write_text ?tf chunk (echo (ProcessingChunk ?name) w)"
  let ?r = "retry_loop client chunk ?q m dl 0 False ?w2"
  from retry_loop_steps [of ?q chunk ?w2 client m dl 0 False]
  obtain evs where evs: "log (snd ?r) = log ?w2 @ evs" "list_all (loop_event ?q chunk) evs"
    "files (snd ?r) = replay evs (files ?w2)"
    by (auto simp: steps_def)
  have pc: "process_chunk client chunk ?q m dl w =
      (case ?r of (Inl e, w2) \<Rightarrow> (Inl e, w2)
       | (Inr success, w2) \<Rightarrow> (Inr (), if \<not> success then echo (FailedToConvert ?name) w2 else w2))"
    by (simp add: process_chunk_def with_suffix_speech_filename Let_def)
  have l2: "log ?w2 = log w @ [Echo (ProcessingChunk ?name), WriteText ?tf chunk]"
    and f2: "files ?w2 = (files w)(?tf \<mapsto> Text chunk)"
    by (simp_all add: write_text_def echo_def)
  obtain a b where r: "?r = (a, b)" by (cases ?r)
  have "snd (process_chunk client chunk ?q m dl w) = snd ?r \<or>
        snd (process_chunk client chunk ?q m dl w) = echo (FailedToConvert ?name) (snd ?r)"
    unfolding pc r by (cases a) simp_all
  then consider (plain) "snd (process_chunk client chunk ?q m dl w) = snd ?r"
    | (failed) "snd (process_chunk client chunk ?q m dl w) = echo (FailedToConvert ?name) (snd ?r)"
    by blast
  then show ?thesis
  proof cases
    case plain
    with evs l2 f2 show ?thesis by (intro exI [of _ evs]) simp
  next
    case failed
    have "replay (evs @ [Echo (FailedToConvert ?name)]) fs = replay evs fs" for fs
      by (simp add: replay_def)
    with failed evs l2 f2 show ?thesis
      by (intro exI [of _ "evs @ [Echo (FailedToConvert ?name)]"]) (simp add: echo_def)
  qed
qed

text \<open>
  C7. Whatever the service answers and whatever the arguments are, \<open>_process_chunk\<close>
  for chunk \<open>i\<close> of a chapter first reports the chunk and writes the chunk's text to the
  companion file, which has the name of the audio file with \<open>.txt\<close> for \<open>.mp3\<close>. All
  that follows are requests for this chunk, writes to the audio file, messages and
  sleeps (\<open>loop_event\<close>): every request comes after the text file is written, and
  nothing writes that file again. At the end the file holds exactly the chunk's text,
  whether the function returns or raises.
\<close>

theorem text_file_written_before_requests:
  "(\<exists>rest.
      new_events w (snd (process_chunk client chunk (speech_filename_of d t i) max_retries retry_delay w)) =
        Echo (ProcessingChunk (path_name (speech_filename_of d t i))) #
        WriteText (text_filename_of d t i) chunk # rest \<and>
      list_all (loop_event (speech_filename_of d t i) chunk) rest) \<and>
   files (snd (process_chunk client chunk (speech_filename_of d t i) max_retries retry_delay w))
     (text_filename_of d t i) = Some (Text chunk) \<and>
   with_suffix (speech_filename_of d t i) (S ''.txt'') = Inr (text_filename_of d t i) \<and>
   text_filename_of d t i = path_join d (slugify t @ S ''---'' @ format_index i @ S ''.txt'') \<and>
   path_name (speech_filename_of d t i) = slugify t @ S ''---'' @ format_index i @ S ''.mp3''"
proof -
  let ?q = "speech_filename_of d t i" and ?tf = "text_filename_of d t i"
  from process_chunk_events [of d t i chunk client max_retries retry_delay w]
  obtain evs where evs: "list_all (loop_event ?q chunk) evs"
    "log (snd (process_chunk client chunk ?q max_retries retry_delay w)) =
       log w @ Echo (ProcessingChunk (path_name (speech_filename_of d t i))) # WriteText ?tf chunk # evs"
    "files (snd (process_chunk client chunk ?q max_retries retry_delay w)) =
       replay evs ((files w)(?tf \<mapsto> Text chunk))"
    by blast
  have "\<forall>e\<in>set evs. written e \<noteq> Some ?tf"
    using evs(1) loop_event_written [of ?q chunk] speech_text_distinct [of d t i d t i]
    by (fastforce simp: list_all_iff)
  then have "replay evs ((files w)(?tf \<mapsto> Text chunk)) ?tf = Some (Text chunk)"
    by (simp add: replay_frame)
  with evs have "files (snd (process_chunk client chunk ?q max_retries retry_delay w)) ?tf = Some (Text chunk)"
    by simp
  moreover from evs have "\<exists>rest.
      new_events w (snd (process_chunk client chunk ?q max_retries retry_delay w)) =
        Echo (ProcessingChunk (path_name ?q)) # WriteText ?tf chunk # rest \<and>
      list_all (loop_event ?q chunk) rest"
    by (simp add: new_events_def)
  moreover have "?tf = path_join d (slugify t @ S ''---'' @ format_index i @ S ''.txt'')"
    by (simp add: text_filename_of_def chunk_name_def path_join_def)
  moreover have "path_name ?q = slugify t @ S ''---'' @ format_index i @ S ''.mp3''"
    by (simp add: speech_filename_of_def path_join_def path_name_def)
  ultimately show ?thesis
    using with_suffix_speech_filename_txt [of d t i] by blast
qed

subsection \<open>What a run touches\<close>

lemma targets_untouched:
  assumes ev: "allowed T e"
    and T: "\<And>p s. T p s \<Longrightarrow> fs p = None \<and> (\<exists>d t i. p = speech_filename_of d t i)"
    and ex: "fs (speech_filename_of d t i) \<noteq> None"
  shows "written e \<noteq> Some (speech_filename_of d t i) \<and>
         written e \<noteq> Some (text_filename_of d t i) \<and>
         (\<forall>s. e \<noteq> SpeechCreate (speech_filename_of d t i) s)"
proof (cases e)
  case (WriteText p s)
  with ev obtain q where q: "T q s" "with_suffix q (S ''.txt'') = Inr p" by auto
  from T [OF q(1)] obtain d' t' i' where q': "q = speech_filename_of d' t' i'" "fs q = None"
    by blast
  with q(2) have p: "p = text_filename_of d' t' i'"
    by (simp add: with_suffix_speech_filename)
  have "p \<noteq> speech_filename_of d t i"
    using p speech_text_distinct [of d t i d' t' i'] by auto
  moreover have "p \<noteq> text_filename_of d t i"
  proof
    assume "p = text_filename_of d t i"
    with p have "d' = d \<and> slugify t' = slugify t \<and> i' = i" by (simp add: text_filename_of_eq)
    then have "q = speech_filename_of d t i" using q'(1) by (simp add: speech_filename_of_eq)
    with q'(2) ex show False by simp
  qed
  ultimately show ?thesis using WriteText by simp
next
  case (StreamToFile p a)
  with ev obtain s where "T p s" by auto
  from T [OF this] obtain d' t' i' where p: "p = speech_filename_of d' t' i'" "fs p = None"
    by blast
  from p(2) ex have "p \<noteq> speech_filename_of d t i" by auto
  moreover from p(1) have "p \<noteq> text_filename_of d t i" by (simp add: speech_text_distinct)
  ultimately show ?thesis using StreamToFile by simp
next
  case (SpeechCreate p s)
  with ev have "T p s" by simp
  from T [OF this] ex have "p \<noteq> speech_filename_of d t i" by auto
  then show ?thesis using SpeechCreate by simp
qed simp_all

lemma chapter_targets_shape:
  "chapter_targets fs d t chunks p s \<Longrightarrow> fs p = None \<and> (\<exists>d t i. p = speech_filename_of d t i)"
  by (auto simp: chapter_targets_def)

lemma book_targets_shape:
  "book_targets fs text_chunker d chapters p s \<Longrightarrow> fs p = None \<and> (\<exists>d t i. p = speech_filename_of d t i)"
  by (auto simp: book_targets_def dest: chapter_targets_shape)

lemma steps_untouched:
  assumes st: "steps (allowed T) w w'"
    and T: "\<And>p s. T p s \<Longrightarrow> files w p = None \<and> (\<exists>d t i. p = speech_filename_of d t i)"
    and ex: "files w (speech_filename_of d t i) \<noteq> None"
  shows "(\<forall>e\<in>set (new_events w w').
            written e \<noteq> Some (speech_filename_of d t i) \<and>
            written e \<noteq> Some (text_filename_of d t i) \<and>
            (\<forall>s. e \<noteq> SpeechCreate (speech_filename_of d t i) s)) \<and>
         files w' (speech_filename_of d t i) = files w (speech_filename_of d t i) \<and>
         files w' (text_filename_of d t i) = files w (text_filename_of d t i)"
proof -
  have a: "\<forall>e\<in>set (new_events w w').
            written e \<noteq> Some (speech_filename_of d t i) \<and>
            written e \<noteq> Some (text_filename_of d t i) \<and>
            (\<forall>s. e \<noteq> SpeechCreate (speech_filename_of d t i) s)"
  proof
    fix e assume "e \<in> set (new_events w w')"
    with steps_new_events [OF st] have "allowed T e" by (simp add: list_all_iff)
    from targets_untouched [OF this T ex] show "written e \<noteq> Some (speech_filename_of d t i) \<and>
            written e \<noteq> Some (text_filename_of d t i) \<and>
            (\<forall>s. e \<noteq> SpeechCreate (speech_filename_of d t i) s)" by simp
  qed
  then show ?thesis
    by (simp add: steps_files [OF st] replay_frame)
qed

lemma process_book_cases:
  obtains (raised) e where "segment text = Inl e"
      "process_book client text_chunker input_path text w = (Inl e, w)"
  | (ran) chapters where "segment text = Inr chapters"
      "steps (allowed (book_targets (files w) text_chunker (path_parent input_path) chapters)) w
         (snd (process_book client text_chunker input_path text w))"
  using segment_Inl process_book_steps by (cases "segment text") blast+

lemma new_events_same: "new_events w w = []"
  by (simp add: new_events_def)

lemma process_book_untouched:
  assumes "files w (speech_filename_of d t i) \<noteq> None"
  shows "(\<forall>e\<in>set (new_events w (snd (process_book client text_chunker input_path text w))).
            written e \<noteq> Some (speech_filename_of d t i) \<and>
            written e \<noteq> Some (text_filename_of d t i) \<and>
            (\<forall>s. e \<noteq> SpeechCreate (speech_filename_of d t i) s)) \<and>
         files (snd (process_book client text_chunker input_path text w)) (speech_filename_of d t i)
           = files w (speech_filename_of d t i) \<and>
         files (snd (process_book client text_chunker input_path text w)) (text_filename_of d t i)
           = files w (text_filename_of d t i)"
proof (cases rule: process_book_cases [of "text" client text_chunker input_path w])
  case (raised e)
  then show ?thesis by (simp add: new_events_same)
next
  case (ran chapters)
  have T: "\<And>p s. book_targets (files w) text_chunker (path_parent input_path) chapters p s \<Longrightarrow>
             files w p = None \<and> (\<exists>d t i. p = speech_filename_of d t i)"
    by (rule book_targets_shape)
  from steps_untouched [OF ran(2) T assms] show ?thesis by simp
qed

lemma process_chapter_untouched:
  assumes "files w (speech_filename_of d t i) \<noteq> None"
  shows "(\<forall>e\<in>set (new_events w (snd (process_chapter client text_chunker ct title dir w))).
            written e \<noteq> Some (speech_filename_of d t i) \<and>
            written e \<noteq> Some (text_filename_of d t i) \<and>
            (\<forall>s. e \<noteq> SpeechCreate (speech_filename_of d t i) s)) \<and>
         files (snd (process_chapter client text_chunker ct title dir w)) (speech_filename_of d t i)
           = files w (speech_filename_of d t i) \<and>
         files (snd (process_chapter client text_chunker ct title dir w)) (text_filename_of d t i)
           = files w (text_filename_of d t i)"
proof -
  have T: "\<And>p s. chapter_targets (files w) dir title (text_chunker ct) p s \<Longrightarrow>
             files w p = None \<and> (\<exists>d t i. p = speech_filename_of d t i)"
    by (rule chapter_targets_shape)
  from steps_untouched [OF process_chapter_steps T assms] show ?thesis by simp
qed

subsection \<open>A small run\<close>

lemma demo_select: "select_chapters (chapters_of demo_text) = Inr [(0, 18, S ''Chapter 1'')]"
proof -
  have c: "chapters_of demo_text = [(0, S ''Chapter 1''), (18, S ''End'')]"
    by (simp add: demo_text_def chapters_of_def finditer.simps heading_match_def is_space_def)
  have s: "select_chapters [(0, S ''Chapter 1''), (18, S ''End'')] = Inr [(0, 18, S ''Chapter 1'')]"
    by (simp add: select_chapters_def enumerate_eq_zip getitem_def)
  show ?thesis by (simp only: c s)
qed

lemma demo_segment: "segment demo_text = Inr [(S ''# Chapter 1\<newline>Hello\<newline>'', S ''Chapter 1'')]"
  by (simp only: segment_def demo_select) (simp add: chapter_text_of_def slice_def clip_def demo_text_def)

lemma demo_speech_filename:
  "speech_filename_of [S ''books''] (S ''Chapter 1'') 0 = [S ''books'', S ''Chapter_1---000.mp3'']"
  by (simp add: speech_filename_of_def path_join_def slugify_def ascii_alnum_def format_index_def
        decimal.simps replicate_two)

lemma demo_text_filename:
  "text_filename_of [S ''books''] (S ''Chapter 1'') 0 = [S ''books'', S ''Chapter_1---000.txt'']"
  by (simp add: text_filename_of_def chunk_name_def slugify_def ascii_alnum_def format_index_def
        decimal.simps replicate_two)

lemma demo_run:
  "process_book demo_client demo_chunker [S ''books'', S ''book.txt''] demo_text w_empty = (Inr (), demo_done)"
  by (simp only: process_book_def demo_select)
     (simp add: process_chapter_def chapter_text_of_def slice_def clip_def
        demo_text_def demo_chunker_def enumerate_eq_zip speech_filename_of_def path_join_def
        path_parent_def slugify_def ascii_alnum_def format_index_def decimal.simps replicate_two
        exists_def echo_def w_empty_def process_chunk_def with_suffix_def path_suffix_def
        path_name_def Let_def retry_loop.simps demo_client_def requests_made_def write_text_def
        speech_create_def stream_to_file_def demo_done_def)

lemma demo_rerun:
  "process_book client demo_chunker [S ''books'', S ''book.txt''] demo_text demo_done =
     (Inr (), demo_done\<lparr>log := log demo_done @
        [Echo (ProcessingChapter (S ''Chapter 1'')),
         Echo (Skipping [S ''books'', S ''Chapter_1---000.mp3'']),
         Echo (CompletedTasks (S ''Chapter 1'') 0),
         Echo (ChapResults 1)]\<rparr>)"
  by (simp only: process_book_def demo_select)
     (simp add: process_chapter_def chapter_text_of_def slice_def clip_def
        demo_text_def demo_chunker_def enumerate_eq_zip speech_filename_of_def path_join_def
        path_parent_def slugify_def ascii_alnum_def format_index_def decimal.simps replicate_two
        exists_def echo_def demo_done_def Let_def)

subsection \<open>Runs in which every request is completed\<close>








subsection \<open>Claim C10: nothing is written for a chunk whose audio file exists\<close>

text \<open>
  C10. When the audio file of a chunk exists at the start, no event of
  \<open>_process_chapter\<close> or of the whole run \<open>_process_book\<close> writes the audio file or its
  companion text file, and both files are afterwards as they were before (the text file
  is absent afterwards when it was absent before): the check \<open>speech_filename.exists()\<close>
  comes before \<open>_process_chunk\<close> and its \<open>write_text\<close>, and no other chunk that is
  processed has these two files.
\<close>

theorem existing_chunk_is_left_alone:
  assumes "exists (speech_filename_of d t i) w"
  shows
    "(\<forall>e\<in>set (new_events w (snd (process_chapter client text_chunker chapter_text chapter_title output_dir w))).
        written e \<noteq> Some (speech_filename_of d t i) \<and> written e \<noteq> Some (text_filename_of d t i)) \<and>
     files (snd (process_chapter client text_chunker chapter_text chapter_title output_dir w))
       (speech_filename_of d t i) = files w (speech_filename_of d t i) \<and>
     files (snd (process_chapter client text_chunker chapter_text chapter_title output_dir w))
       (text_filename_of d t i) = files w (text_filename_of d t i) \<and>
     (\<forall>e\<in>set (new_events w (snd (process_book client text_chunker input_path text w))).
        written e \<noteq> Some (speech_filename_of d t i) \<and> written e \<noteq> Some (text_filename_of d t i)) \<and>
     files (snd (process_book client text_chunker input_path text w))
       (speech_filename_of d t i) = files w (speech_filename_of d t i) \<and>
     files (snd (process_book client text_chunker input_path text w))
       (text_filename_of d t i) = files w (text_filename_of d t i) \<and>
     with_suffix (speech_filename_of d t i) (S ''.txt'') = Inr (text_filename_of d t i)"
proof -
  from assms have ex: "files w (speech_filename_of d t i) \<noteq> None" by (simp add: exists_def)
  show ?thesis
    using process_chapter_untouched [OF ex, of client text_chunker chapter_text chapter_title output_dir]
      process_book_untouched [OF ex, of client text_chunker input_path "text"]
      with_suffix_speech_filename_txt [of d t i]
    by simp
qed

theorem existing_chunk_is_left_alone_witness:
  "exists (speech_filename_of [S ''books''] (S ''Chapter 1'') 0) demo_done \<and>
   files (snd (process_book demo_client demo_chunker [S ''books'', S ''book.txt''] demo_text demo_done))
     (speech_filename_of [S ''books''] (S ''Chapter 1'') 0) = Some (Audio [0]) \<and>
   files (snd (process_book demo_client demo_chunker [S ''books'', S ''book.txt''] demo_text demo_done))
     (text_filename_of [S ''books''] (S ''Chapter 1'') 0) = Some (Text (S ''# Chapter 1\<newline>Hello\<newline>''))"
proof -
  have ex: "exists (speech_filename_of [S ''books''] (S ''Chapter 1'') 0) demo_done"
    by (simp only: demo_speech_filename) (simp add: exists_def demo_done_def)
  have a: "files demo_done (speech_filename_of [S ''books''] (S ''Chapter 1'') 0) = Some (Audio [0])"
    by (simp only: demo_speech_filename) (simp add: demo_done_def)
  have b: "files demo_done (text_filename_of [S ''books''] (S ''Chapter 1'') 0)
             = Some (Text (S ''# Chapter 1\<newline>Hello\<newline>''))"
    by (simp only: demo_text_filename) (simp add: demo_done_def)
  from existing_chunk_is_left_alone [OF ex, of demo_client demo_chunker "[]" "[]" "[]"
      "[S ''books'', S ''book.txt'']" demo_text] ex a b
  show ?thesis by simp
qed

subsection \<open>Claim C9: the names of the output files\<close>

lemma allowed_book_targets_named:
  assumes "allowed (book_targets fs text_chunker d chapters) e"
  shows "case e of
           WriteText p s \<Rightarrow>
             (\<exists>(ct, title)\<in>set chapters. \<exists>i<length (text_chunker ct).
                p = path_join d (slugify title @ S ''---'' @ format_index i @ S ''.txt'') \<and>
                s = text_chunker ct ! i)
         | StreamToFile p audio \<Rightarrow>
             (\<exists>(ct, title)\<in>set chapters. \<exists>i<length (text_chunker ct).
                p = path_join d (slugify title @ S ''---'' @ format_index i @ S ''.mp3''))
         | _ \<Rightarrow> True"
proof (cases e)
  case (WriteText p s)
  with assms obtain q where q: "book_targets fs text_chunker d chapters q s"
    "with_suffix q (S ''.txt'') = Inr p" by auto
  from q(1) obtain ct title i where m: "(ct, title) \<in> set chapters" "i < length (text_chunker ct)"
    "q = speech_filename_of d title i" "s = text_chunker ct ! i"
    by (auto simp: book_targets_def chapter_targets_def)
  from q(2) m(3) have "p = text_filename_of d title i" by (simp add: with_suffix_speech_filename)
  then have "p = path_join d (slugify title @ S ''---'' @ format_index i @ S ''.txt'')"
    by (simp add: text_filename_of_def chunk_name_def path_join_def)
  with m(1,2,4) have "\<exists>(ct, title)\<in>set chapters. \<exists>i<length (text_chunker ct).
                p = path_join d (slugify title @ S ''---'' @ format_index i @ S ''.txt'') \<and>
                s = text_chunker ct ! i"
    by blast
  then show ?thesis using WriteText by simp
next
  case (StreamToFile p audio)
  with assms obtain s where "book_targets fs text_chunker d chapters p s" by auto
  then obtain ct title i where m: "(ct, title) \<in> set chapters" "i < length (text_chunker ct)"
    "p = speech_filename_of d title i"
    by (auto simp: book_targets_def chapter_targets_def)
  then have "p = path_join d (slugify title @ S ''---'' @ format_index i @ S ''.mp3'')"
    by (simp add: speech_filename_of_def)
  with m(1,2) have "\<exists>(ct, title)\<in>set chapters. \<exists>i<length (text_chunker ct).
                p = path_join d (slugify title @ S ''---'' @ format_index i @ S ''.mp3'')"
    by blast
  then show ?thesis using StreamToFile by simp
qed simp_all

text \<open>
  C9. In a run, every file that is written belongs to a selected chapter and a chunk index
  of it, lies in the directory of the input file, and is named
  \<open>{slug(title)}---{index}.txt\<close> when it is written by \<open>write_text\<close> (with the chunk's
  text) and \<open>{slug(title)}---{index}.mp3\<close> when the audio is streamed to it; the files
  change by these writes only. The index is written in decimal digits, padded with zeros
  to at least three digits (exactly three below 1000). The slug has the length of the
  title; it keeps each character that is an ASCII letter or digit and has \<open>_\<close> (95) for
  each other character.
\<close>

theorem output_files_named_by_slug_and_index:
  assumes "segment text = Inr chapters"
  shows
    "(\<forall>e\<in>set (new_events w (snd (process_book client text_chunker input_path text w))).
        case e of
          WriteText p s \<Rightarrow>
            (\<exists>(ct, title)\<in>set chapters. \<exists>i<length (text_chunker ct).
               p = path_join (path_parent input_path)
                     (slugify title @ S ''---'' @ format_index i @ S ''.txt'') \<and>
               s = text_chunker ct ! i)
        | StreamToFile p audio \<Rightarrow>
            (\<exists>(ct, title)\<in>set chapters. \<exists>i<length (text_chunker ct).
               p = path_join (path_parent input_path)
                     (slugify title @ S ''---'' @ format_index i @ S ''.mp3''))
        | _ \<Rightarrow> True) \<and>
     files (snd (process_book client text_chunker input_path text w)) =
       replay (new_events w (snd (process_book client text_chunker input_path text w))) (files w) \<and>
     (\<forall>i. 3 \<le> length (format_index i) \<and> (i < 1000 \<longrightarrow> length (format_index i) = 3) \<and>
          (\<forall>c\<in>set (format_index i). 48 \<le> c \<and> c \<le> 57) \<and> index_value (format_index i) = i) \<and>
     (\<forall>title. length (slugify title) = length title \<and>
          (\<forall>k<length title. slugify title ! k = (if ascii_alnum (title ! k) then title ! k else 95)))"
proof -
  let ?w' = "snd (process_book client text_chunker input_path text w)"
  let ?T = "book_targets (files w) text_chunker (path_parent input_path) chapters"
  have st: "steps (allowed ?T) w ?w'" using process_book_steps [OF assms] .
  have "\<forall>e\<in>set (new_events w ?w'). allowed ?T e"
    using steps_new_events [OF st] by (simp add: list_all_iff)
  then have a: "\<forall>e\<in>set (new_events w ?w').
        case e of
          WriteText p s \<Rightarrow>
            (\<exists>(ct, title)\<in>set chapters. \<exists>i<length (text_chunker ct).
               p = path_join (path_parent input_path)
                     (slugify title @ S ''---'' @ format_index i @ S ''.txt'') \<and>
               s = text_chunker ct ! i)
        | StreamToFile p audio \<Rightarrow>
            (\<exists>(ct, title)\<in>set chapters. \<exists>i<length (text_chunker ct).
               p = path_join (path_parent input_path)
                     (slugify title @ S ''---'' @ format_index i @ S ''.mp3''))
        | _ \<Rightarrow> True"
    using allowed_book_targets_named by blast
  have b: "files ?w' = replay (new_events w ?w') (files w)" using steps_files [OF st] .
  have c: "\<forall>i. 3 \<le> length (format_index i) \<and> (i < 1000 \<longrightarrow> length (format_index i) = 3) \<and>
          (\<forall>c\<in>set (format_index i). 48 \<le> c \<and> c \<le> 57) \<and> index_value (format_index i) = i"
    using length_format_index length_format_index_small format_index_digits index_value_format_index
    by blast
  have d: "\<forall>title. length (slugify title) = length title \<and>
          (\<forall>k<length title. slugify title ! k = (if ascii_alnum (title ! k) then title ! k else 95))"
    by (simp add: slugify_def)
  from a b c d show ?thesis by blast
qed

theorem output_files_named_by_slug_and_index_witness:
  "segment demo_text = Inr [(S ''# Chapter 1\<newline>Hello\<newline>'', S ''Chapter 1'')] \<and>
   WriteText [S ''books'', S ''Chapter_1---000.txt''] (S ''# Chapter 1\<newline>Hello\<newline>'')
     \<in> set (new_events w_empty
          (snd (process_book demo_client demo_chunker [S ''books'', S ''book.txt''] demo_text w_empty))) \<and>
   (\<exists>(ct, title)\<in>set [(S ''# Chapter 1\<newline>Hello\<newline>'', S ''Chapter 1'')]. \<exists>i<length (demo_chunker ct).
      [S ''books'', S ''Chapter_1---000.txt''] =
        path_join (path_parent [S ''books'', S ''book.txt''])
          (slugify title @ S ''---'' @ format_index i @ S ''.txt'') \<and>
      S ''# Chapter 1\<newline>Hello\<newline>'' = demo_chunker ct ! i) \<and>
   length (format_index 7) = 3 \<and> index_value (format_index 7) = 7"
proof -
  let ?e = "WriteText [S ''books'', S ''Chapter_1---000.txt''] (S ''# Chapter 1\<newline>Hello\<newline>'')"
  let ?w' = "snd (process_book demo_client demo_chunker [S ''books'', S ''book.txt''] demo_text w_empty)"
  have m: "?e \<in> set (new_events w_empty ?w')"
    by (simp only: demo_run) (simp add: new_events_def w_empty_def demo_done_def)
  note inst = output_files_named_by_slug_and_index [OF demo_segment,
      of w_empty demo_client demo_chunker "[S ''books'', S ''book.txt'']"]
  from inst m have "case ?e of
          WriteText p s \<Rightarrow>
            (\<exists>(ct, title)\<in>set [(S ''# Chapter 1\<newline>Hello\<newline>'', S ''Chapter 1'')]. \<exists>i<length (demo_chunker ct).
               p = path_join (path_parent [S ''books'', S ''book.txt''])
                     (slugify title @ S ''---'' @ format_index i @ S ''.txt'') \<and>
               s = demo_chunker ct ! i)
        | StreamToFile p audio \<Rightarrow>
            (\<exists>(ct, title)\<in>set [(S ''# Chapter 1\<newline>Hello\<newline>'', S ''Chapter 1'')]. \<exists>i<length (demo_chunker ct).
               p = path_join (path_parent [S ''books'', S ''book.txt''])
                     (slugify title @ S ''---'' @ format_index i @ S ''.mp3''))
        | _ \<Rightarrow> True"
    by blast
  then have x: "\<exists>(ct, title)\<in>set [(S ''# Chapter 1\<newline>Hello\<newline>'', S ''Chapter 1'')]. \<exists>i<length (demo_chunker ct).
      [S ''books'', S ''Chapter_1---000.txt''] =
        path_join (path_parent [S ''books'', S ''book.txt''])
          (slugify title @ S ''---'' @ format_index i @ S ''.txt'') \<and>
      S ''# Chapter 1\<newline>Hello\<newline>'' = demo_chunker ct ! i"
    by (simp only: event.case)
  from inst have "(7::nat) < 1000 \<longrightarrow> length (format_index 7) = 3" "index_value (format_index 7) = 7"
    by blast+
  with x m demo_segment show ?thesis by simp
qed

subsection \<open>Claim C5: chunks whose audio file exists are skipped\<close>








subsection \<open>Claim C6: exceptions of the service other than rate limits\<close>


























subsection \<open>Claim C8: distinct chunks, distinct files\<close>

lemma twin_select:
  "select_chapters (chapters_of twin_text) = Inr [(0, 15, S ''Chapter 1.''), (15, 30, S ''Chapter 1!'')]"
proof -
  have c: "chapters_of twin_text = [(0, S ''Chapter 1.''), (15, S ''Chapter 1!''), (30, S ''End'')]"
    by (simp add: twin_text_def chapters_of_def finditer.simps heading_match_def is_space_def)
  have s: "select_chapters [(0, S ''Chapter 1.''), (15, S ''Chapter 1!''), (30, S ''End'')]
             = Inr [(0, 15, S ''Chapter 1.''), (15, 30, S ''Chapter 1!'')]"
    by (simp add: select_chapters_def enumerate_eq_zip getitem_def)
  show ?thesis by (simp only: c s)
qed

text \<open>
  C8 as stated fails: two chapters of one run whose titles differ only in characters
  that \<open>slugify\<close> replaces get the same files for their chunk 0. In the run below both
  chunks are processed and both write the same text file, the second over the first.
\<close>

theorem shared_slug_counterexample:
  "segment twin_text =
     Inr [(S ''# Chapter 1.\<newline>A\<newline>'', S ''Chapter 1.''), (S ''# Chapter 1!\<newline>B\<newline>'', S ''Chapter 1!'')] \<and>
   S ''Chapter 1.'' \<noteq> S ''Chapter 1!'' \<and>
   speech_filename_of [S ''books''] (S ''Chapter 1.'') 0 = speech_filename_of [S ''books''] (S ''Chapter 1!'') 0 \<and>
   (let w' = snd (process_book (\<lambda>n input. CreateRaises RateLimitError) demo_chunker
                    [S ''books'', S ''book.txt''] twin_text w_empty)
    in WriteText [S ''books'', S ''Chapter_1_---000.txt''] (S ''# Chapter 1.\<newline>A\<newline>'') \<in> set (log w') \<and>
       WriteText [S ''books'', S ''Chapter_1_---000.txt''] (S ''# Chapter 1!\<newline>B\<newline>'') \<in> set (log w') \<and>
       files w' [S ''books'', S ''Chapter_1_---000.txt''] = Some (Text (S ''# Chapter 1!\<newline>B\<newline>'')))"
proof -
  have g: "segment twin_text =
     Inr [(S ''# Chapter 1.\<newline>A\<newline>'', S ''Chapter 1.''), (S ''# Chapter 1!\<newline>B\<newline>'', S ''Chapter 1!'')]"
    by (simp only: segment_def twin_select) (simp add: chapter_text_of_def slice_def clip_def twin_text_def)
  have p: "speech_filename_of [S ''books''] (S ''Chapter 1.'') 0 = speech_filename_of [S ''books''] (S ''Chapter 1!'') 0"
    by (simp add: speech_filename_of_def slugify_def ascii_alnum_def)
  have r: "let w' = snd (process_book (\<lambda>n input. CreateRaises RateLimitError) demo_chunker
                    [S ''books'', S ''book.txt''] twin_text w_empty)
    in WriteText [S ''books'', S ''Chapter_1_---000.txt''] (S ''# Chapter 1.\<newline>A\<newline>'') \<in> set (log w') \<and>
       WriteText [S ''books'', S ''Chapter_1_---000.txt''] (S ''# Chapter 1!\<newline>B\<newline>'') \<in> set (log w') \<and>
       files w' [S ''books'', S ''Chapter_1_---000.txt''] = Some (Text (S ''# Chapter 1!\<newline>B\<newline>''))"
    by (simp only: process_book_def twin_select)
       (simp add: process_chapter_def chapter_text_of_def slice_def clip_def
        twin_text_def demo_chunker_def enumerate_eq_zip speech_filename_of_def path_join_def
        path_parent_def slugify_def ascii_alnum_def format_index_def decimal.simps replicate_two
        exists_def echo_def w_empty_def process_chunk_def with_suffix_def path_suffix_def
        path_name_def Let_def retry_loop.simps requests_made_def write_text_def
        speech_create_def stream_to_file_def sleep_def)
  from g p r show ?thesis by simp
qed

text \<open>
  C8, amended. In one output directory two chunks have the same audio file exactly when
  their chunk indices are equal and the slugs of their chapter titles are equal. So the
  chunks of one chapter have files of their own, and so have chapters with different
  slugs.
\<close>

theorem speech_filename_equal_iff:
  "speech_filename_of d t i = speech_filename_of d t' j \<longleftrightarrow> slugify t = slugify t' \<and> i = j"
  by (simp add: speech_filename_of_name chunk_name_eq)

end
